theory Spec2Isabelle
  imports Main "HOL-Library.Sublist"
begin

section \<open>Strings\<close>

text \<open>
  A JavaScript string is modelled as a \<^typ>\<open>string\<close> holding its UTF-8 bytes. Every
  character the program searches for is ASCII, and an ASCII byte never occurs inside the
  encoding of another code point, so searching the bytes finds what searching the code
  units finds. \<open>Buffer.byteLength(s, 'utf-8')\<close> is then the length of the list.
\<close>

definition dq :: char where "dq = CHR 0x22"
definition sq :: char where "sq = CHR 0x27"
definition newline :: char where "newline = CHR 0x0A"

text \<open>
  \<open>Canonicalize\<close> of ECMAScript's regular expressions under the \<open>i\<close> flag (without
  \<open>u\<close>): a character is compared by its upper case, and no character outside ASCII is
  mapped to an ASCII one, so on ASCII patterns only the 26 letters fold.
\<close>

definition canonicalize :: "char \<Rightarrow> char" where
  "canonicalize ch =
     (case map_of (zip ''abcdefghijklmnopqrstuvwxyz'' ''ABCDEFGHIJKLMNOPQRSTUVWXYZ'') ch of
        Some cu \<Rightarrow> cu
      | None \<Rightarrow> ch)"

definition same_char :: "bool \<Rightarrow> char \<Rightarrow> char \<Rightarrow> bool" where
  "same_char ic c x = (if ic then canonicalize x = canonicalize c else x = c)"

text \<open>\<open>String.prototype.includes\<close> and \<open>String.prototype.endsWith\<close>.\<close>

fun includes_str :: "string \<Rightarrow> string \<Rightarrow> bool" where
  "includes_str [] sub = (sub = [])"
| "includes_str (x # xs) sub = (prefix sub (x # xs) \<or> includes_str xs sub)"

definition endsWith :: "string \<Rightarrow> string \<Rightarrow> bool" where
  "endsWith s w = prefix (rev w) (rev s)"

text \<open>
  \<open>String.prototype.trim\<close> removes leading and trailing white space and line
  terminators: TAB, LF, VT, FF, CR, SP, U+00A0, U+1680, U+2000 to U+200A, U+2028, U+2029,
  U+202F, U+205F, U+3000 and U+FEFF, here by their UTF-8 encodings.
\<close>

definition white_space :: "string list" where
  "white_space =
     map (\<lambda>c. [c]) [CHR 0x09, CHR 0x0A, CHR 0x0B, CHR 0x0C, CHR 0x0D, CHR 0x20] @
     [[CHR 0xC2, CHR 0xA0], [CHR 0xE1, CHR 0x9A, CHR 0x80]] @
     map (\<lambda>c. [CHR 0xE2, CHR 0x80, c])
       [CHR 0x80, CHR 0x81, CHR 0x82, CHR 0x83, CHR 0x84, CHR 0x85, CHR 0x86, CHR 0x87,
        CHR 0x88, CHR 0x89, CHR 0x8A, CHR 0xA8, CHR 0xA9, CHR 0xAF] @
     [[CHR 0xE2, CHR 0x81, CHR 0x9F], [CHR 0xE3, CHR 0x80, CHR 0x80],
      [CHR 0xEF, CHR 0xBB, CHR 0xBF]]"

function strip_leading :: "string list \<Rightarrow> string \<Rightarrow> string" where
  "strip_leading ws s =
     (case find (\<lambda>w. w \<noteq> [] \<and> prefix w s) ws of
        None \<Rightarrow> s
      | Some w \<Rightarrow> strip_leading ws (drop (length w) s))"
  by pat_completeness auto
termination
proof (relation "measure (\<lambda>(ws, s). length s)")
  show "wf (measure (\<lambda>(ws, s). length s))" by simp
next
  fix ws :: "string list" and s w :: string
  assume "find (\<lambda>w. w \<noteq> [] \<and> prefix w s) ws = Some w"
  then have "w \<noteq> []" and "prefix w s"
    by (auto simp: find_Some_iff)
  then have "s \<noteq> []" by auto
  with \<open>w \<noteq> []\<close> show "((ws, drop (length w) s), (ws, s)) \<in> measure (\<lambda>(ws, s). length s)"
    by simp
qed

declare strip_leading.simps [simp del]

definition trimStart :: "string \<Rightarrow> string" where
  "trimStart s = strip_leading white_space s"

definition trimEnd :: "string \<Rightarrow> string" where
  "trimEnd s = rev (strip_leading (map rev white_space) (rev s))"

definition trim :: "string \<Rightarrow> string" where
  "trim s = trimEnd (trimStart s)"

text \<open>Number to decimal string, as a template literal prints an integer.\<close>

definition digit :: "nat \<Rightarrow> char" where
  "digit d = ''0123456789'' ! d"

function show_nat :: "nat \<Rightarrow> string" where
  "show_nat n = (if n < 10 then [digit n] else show_nat (n div 10) @ [digit (n mod 10)])"
  by pat_completeness auto
termination
  by (relation "measure id") auto

declare show_nat.simps [simp del]

text \<open>
  \<open>(bytes / 1024).toFixed(2)\<close>: the quotient is exact in a double (1024 is a power of
  two), and \<open>toFixed\<close> picks the integer \<open>n\<close> with \<open>n / 100\<close> nearest to it, the larger of
  two; the digits of \<open>n\<close> are printed with a point before the last two.
\<close>

definition toFixed2_kb :: "nat \<Rightarrow> string" where
  "toFixed2_kb bytes =
     (let n = (bytes * 100 + 512) div 1024
      in show_nat (n div 100) @ ''.'' @ [digit (n mod 100 div 10), digit (n mod 10)])"

section \<open>Regular expressions\<close>

text \<open>
  The three regular expressions of \<open>generate.mjs\<close> are sequences of single characters,
  character classes, greedy and lazy stars of a class, and one capture group around a
  lazy star. They are kept as syntax and run by a backtracking matcher with ECMAScript's
  priorities: a greedy star first tries to take one more character, a lazy star first
  tries to stop.
\<close>

datatype cls = Ch char | Not char | OneOf "char list" | Any

fun cls_match :: "bool \<Rightarrow> cls \<Rightarrow> char \<Rightarrow> bool" where
  "cls_match ic (Ch c) x = same_char ic c x"
| "cls_match ic (Not c) x = (\<not> same_char ic c x)"
| "cls_match ic (OneOf cs) x = list_ex (\<lambda>c. same_char ic c x) cs"
| "cls_match ic Any x = True"

datatype item = Atom cls | Greedy cls | Lazy cls | CapLazy cls

record regex =
  ignoreCase :: bool
  items :: "item list"

text \<open>A match: the matched text (\<open>match[0]\<close>) and the captures (\<open>match[1]\<close>, ...).\<close>

type_synonym match = "string \<times> string list"

fun greedy_star ::
  "(char \<Rightarrow> bool) \<Rightarrow> (string \<Rightarrow> 'a option) \<Rightarrow> string \<Rightarrow> (string \<times> 'a) option" where
  "greedy_star P k [] = map_option (Pair []) (k [])"
| "greedy_star P k (x # xs) =
     (if P x then
        (case greedy_star P k xs of
           Some (g, r) \<Rightarrow> Some (x # g, r)
         | None \<Rightarrow> map_option (Pair []) (k (x # xs)))
      else map_option (Pair []) (k (x # xs)))"

fun lazy_star ::
  "(char \<Rightarrow> bool) \<Rightarrow> (string \<Rightarrow> 'a option) \<Rightarrow> string \<Rightarrow> (string \<times> 'a) option" where
  "lazy_star P k [] = map_option (Pair []) (k [])"
| "lazy_star P k (x # xs) =
     (case k (x # xs) of
        Some r \<Rightarrow> Some ([], r)
      | None \<Rightarrow>
          if P x then map_option (\<lambda>(g, r). (x # g, r)) (lazy_star P k xs) else None)"

text \<open>
  \<open>bt ic r s\<close> matches the items \<open>r\<close> at the start of \<open>s\<close> and returns the first match in
  backtracking order with what follows it in \<open>s\<close>.
\<close>

fun bt :: "bool \<Rightarrow> item list \<Rightarrow> string \<Rightarrow> (match \<times> string) option" where
  "bt ic [] s = Some (([], []), s)"
| "bt ic (Atom c # r) [] = None"
| "bt ic (Atom c # r) (x # xs) =
     (if cls_match ic c x
      then map_option (\<lambda>((m, caps), rest). ((x # m, caps), rest)) (bt ic r xs)
      else None)"
| "bt ic (Greedy c # r) s =
     map_option (\<lambda>(g, (m, caps), rest). ((g @ m, caps), rest))
       (greedy_star (cls_match ic c) (bt ic r) s)"
| "bt ic (Lazy c # r) s =
     map_option (\<lambda>(g, (m, caps), rest). ((g @ m, caps), rest))
       (lazy_star (cls_match ic c) (bt ic r) s)"
| "bt ic (CapLazy c # r) s =
     map_option (\<lambda>(g, (m, caps), rest). ((g @ m, g # caps), rest))
       (lazy_star (cls_match ic c) (bt ic r) s)"

definition match_at :: "regex \<Rightarrow> string \<Rightarrow> (match \<times> string) option" where
  "match_at re s = bt (ignoreCase re) (items re) s"

text \<open>
  \<open>RegExp.prototype.exec\<close> from the start of \<open>s\<close>: the leftmost position where the
  expression matches, with the text before the match and the text after it.
\<close>

fun search :: "regex \<Rightarrow> string \<Rightarrow> (string \<times> match \<times> string) option" where
  "search re [] = map_option (\<lambda>(mt, rest). ([], mt, rest)) (match_at re [])"
| "search re (x # xs) =
     (case match_at re (x # xs) of
        Some (mt, rest) \<Rightarrow> Some ([], mt, rest)
      | None \<Rightarrow> map_option (\<lambda>(pre, mt, rest). (x # pre, mt, rest)) (search re xs))"

lemma greedy_star_Some:
  "greedy_star P k s = Some (g, r) \<Longrightarrow> \<exists>t. s = g @ t \<and> k t = Some r"
  by (induction s arbitrary: g) (auto split: if_splits option.splits)

lemma lazy_star_Some:
  "lazy_star P k s = Some (g, r) \<Longrightarrow> \<exists>t. s = g @ t \<and> k t = Some r"
  by (induction s arbitrary: g) (auto split: if_splits option.splits)

lemma bt_append: "bt ic r s = Some ((m, caps), rest) \<Longrightarrow> s = m @ rest"
proof (induction ic r s arbitrary: m caps rest rule: bt.induct)
  case (4 ic c r s)
  then obtain g m' where g: "greedy_star (cls_match ic c) (bt ic r) s = Some (g, (m', caps), rest)"
    and m: "m = g @ m'"
    by auto
  from greedy_star_Some [OF g] obtain t where "s = g @ t" "bt ic r t = Some ((m', caps), rest)"
    by blast
  with 4 m show ?case by auto
next
  case (5 ic c r s)
  then obtain g m' where g: "lazy_star (cls_match ic c) (bt ic r) s = Some (g, (m', caps), rest)"
    and m: "m = g @ m'"
    by auto
  from lazy_star_Some [OF g] obtain t where "s = g @ t" "bt ic r t = Some ((m', caps), rest)"
    by blast
  with 5 m show ?case by auto
next
  case (6 ic c r s)
  then obtain g m' caps' where
    g: "lazy_star (cls_match ic c) (bt ic r) s = Some (g, (m', caps'), rest)"
    and m: "m = g @ m'"
    by auto
  from lazy_star_Some [OF g] obtain t where "s = g @ t" "bt ic r t = Some ((m', caps'), rest)"
    by blast
  with 6 m show ?case by auto
qed (auto split: if_splits)

lemma search_append:
  "search re s = Some (pre, (m, caps), rest) \<Longrightarrow> s = pre @ m @ rest"
  by (induction s arbitrary: pre)
    (auto simp: match_at_def split: option.splits dest: bt_append)

text \<open>
  \<open>String.prototype.replace\<close> with a regular expression that has the \<open>g\<close> flag: every
  match, found from left to right with the search resuming after the previous match (one
  character further after an empty match), is replaced by what \<open>f\<close> returns for it.
\<close>

function replace_all :: "regex \<Rightarrow> (match \<Rightarrow> string) \<Rightarrow> string \<Rightarrow> string" where
  "replace_all re f s =
     (case search re s of
        None \<Rightarrow> s
      | Some (pre, mt, rest) \<Rightarrow>
          pre @ f mt @
          (if fst mt = [] then (case rest of [] \<Rightarrow> [] | x # xs \<Rightarrow> x # replace_all re f xs)
           else replace_all re f rest))"
  by pat_completeness auto
termination
proof (relation "measure (\<lambda>(re, f, s). length s)")
  show "wf (measure (\<lambda>(re, f, s). length s))" by simp
next
  fix re :: regex and f :: "match \<Rightarrow> string" and s pre rest xs :: string and mt :: match
    and x2 :: "string \<times> match \<times> string" and y :: "match \<times> string" and x :: char
  assume "search re s = Some x2" "(pre, y) = x2" "(mt, rest) = y" "rest = x # xs"
  then have "search re s = Some (pre, (fst mt, snd mt), x # xs)" by auto
  from search_append [OF this]
  show "((re, f, xs), (re, f, s)) \<in> measure (\<lambda>(re, f, s). length s)" by simp
next
  fix re :: regex and f :: "match \<Rightarrow> string" and s pre rest :: string and mt :: match
    and x2 :: "string \<times> match \<times> string" and y :: "match \<times> string"
  assume "search re s = Some x2" "(pre, y) = x2" "(mt, rest) = y" "fst mt \<noteq> []"
  then have "search re s = Some (pre, (fst mt, snd mt), rest)" by auto
  from search_append [OF this] \<open>fst mt \<noteq> []\<close>
  show "((re, f, rest), (re, f, s)) \<in> measure (\<lambda>(re, f, s). length s)" by simp
qed

declare replace_all.simps [simp del]

text \<open>\<open>String.prototype.matchAll\<close> (the expression has the \<open>g\<close> flag): the same matches.\<close>

function matchAll :: "regex \<Rightarrow> string \<Rightarrow> match list" where
  "matchAll re s =
     (case search re s of
        None \<Rightarrow> []
      | Some (pre, mt, rest) \<Rightarrow>
          mt #
          (if fst mt = [] then (case rest of [] \<Rightarrow> [] | x # xs \<Rightarrow> matchAll re xs)
           else matchAll re rest))"
  by pat_completeness auto
termination
proof (relation "measure (\<lambda>(re, s). length s)")
  show "wf (measure (\<lambda>(re, s). length s))" by simp
next
  fix re :: regex and s pre rest xs :: string and mt :: match
    and x2 :: "string \<times> match \<times> string" and y :: "match \<times> string" and x :: char
  assume "search re s = Some x2" "(pre, y) = x2" "(mt, rest) = y" "rest = x # xs"
  then have "search re s = Some (pre, (fst mt, snd mt), x # xs)" by auto
  from search_append [OF this]
  show "((re, xs), (re, s)) \<in> measure (\<lambda>(re, s). length s)" by simp
next
  fix re :: regex and s pre rest :: string and mt :: match
    and x2 :: "string \<times> match \<times> string" and y :: "match \<times> string"
  assume "search re s = Some x2" "(pre, y) = x2" "(mt, rest) = y" "fst mt \<noteq> []"
  then have "search re s = Some (pre, (fst mt, snd mt), rest)" by auto
  from search_append [OF this] \<open>fst mt \<noteq> []\<close>
  show "((re, rest), (re, s)) \<in> measure (\<lambda>(re, s). length s)" by simp
qed

declare matchAll.simps [simp del]

text \<open>
  \<open>String.prototype.match\<close> with an expression without the \<open>g\<close> flag: the first match,
  or \<open>null\<close>.
\<close>

definition match_first :: "regex \<Rightarrow> string \<Rightarrow> match option" where
  "match_first re s = map_option (\<lambda>(pre, mt, rest). mt) (search re s)"

text \<open>
  \<open>String.prototype.replace\<close> with a string pattern and a string replacement: the first
  occurrence only, and the replacement goes through \<open>GetSubstitution\<close>, which expands
  \<open>$$\<close>, \<open>$&\<close>, \<open>$`\<close> and \<open>$'\<close> (a string pattern has no captures, so \<open>$1\<close> and \<open>$<\<close>
  stand for themselves).
\<close>

fun get_substitution :: "string \<Rightarrow> string \<Rightarrow> string \<Rightarrow> string \<Rightarrow> string" where
  "get_substitution matched pre post [] = []"
| "get_substitution matched pre post [c] = [c]"
| "get_substitution matched pre post (c # d # t) =
     (if c = CHR ''$'' then
        (if d = CHR ''$'' then CHR ''$'' # get_substitution matched pre post t
         else if d = CHR ''&'' then matched @ get_substitution matched pre post t
         else if d = CHR ''`'' then pre @ get_substitution matched pre post t
         else if d = sq then post @ get_substitution matched pre post t
         else c # get_substitution matched pre post (d # t))
      else c # get_substitution matched pre post (d # t))"

fun split_first :: "string \<Rightarrow> string \<Rightarrow> (string \<times> string) option" where
  "split_first pat [] = (if pat = [] then Some ([], []) else None)"
| "split_first pat (x # xs) =
     (if prefix pat (x # xs) then Some ([], drop (length pat) (x # xs))
      else map_option (\<lambda>(b, a). (x # b, a)) (split_first pat xs))"

definition replace_string :: "string \<Rightarrow> string \<Rightarrow> string \<Rightarrow> string" where
  "replace_string pat template s =
     (case split_first pat s of
        None \<Rightarrow> s
      | Some (b, a) \<Rightarrow> b @ get_substitution pat b a template @ a)"

section \<open>Data model\<close>

text \<open>A thrown \<open>Error\<close> is a value; \<open>message\<close> reads \<open>error.message\<close>.\<close>

datatype js_error = Error string

fun message :: "js_error \<Rightarrow> string" where
  "message (Error m) = m"

record page_spec =
  uri :: string
  template :: string

text \<open>
  The resolved configuration. The options bag passed through to the extraction engine is
  of a type \<open>'o\<close> the program never looks into.
\<close>

record 'o config =
  projectRoot :: string
  baseUrl :: string
  outputDir :: string
  manifestPath :: string
  appEntry :: string
  publicDir :: string
  publicPath :: string
  pages :: "page_spec list"
  beasties :: 'o

record css_info =
  absolutePath :: string
  href :: string

record page_result =
  page :: page_spec
  success :: bool
  size_kb :: "string option"
  error :: "string option"

record run_summary =
  results :: "page_result list"
  successful :: nat
  failed :: nat

text \<open>
  The parsed build manifest, in the shape the build tool writes: an object from entry
  keys to chunks, of which the program reads the \<open>css\<close> list of file names only.
\<close>

record chunk =
  css :: "string list option"

type_synonym manifest = "string \<rightharpoonup> chunk"

text \<open>
  An HTTP response: \<open>ok\<close> is, by the Fetch standard, a status from 200 to 299;
  \<open>body_text\<close> is what \<open>response.text()\<close> resolves to, or the error it rejects with.
\<close>

record response =
  status :: nat
  statusText :: string
  body_text :: "js_error + string"

definition ok :: "response \<Rightarrow> bool" where
  "ok r = (200 \<le> status r \<and> status r \<le> 299)"

text \<open>
  The state the program works on: the directories and the files of the disk, to which a
  run adds the directories it makes sure exist and the files it writes, and the URLs
  requested so far, in order.
\<close>

record store =
  dirs :: "string set"
  files :: "string \<rightharpoonup> string"
  requests :: "string list"

text \<open>
  Everything outside the program is a parameter: Node's \<open>path\<close> functions, the file
  system's answers, \<open>JSON.parse\<close>, the HTTP server's answers and the extraction engine
  (\<open>beasties_process s p pp o h\<close> is \<open>new Beasties({path: p, publicPath: pp, ...o}).process(h)\<close>).
  What is read from the disk is read from the disk as it is at that moment, whatever the
  program wrote before included: \<open>readFile\<close>, \<open>readdir\<close> and the engine, which
  loads the linked stylesheet from the disk, take the store at the time of the call.
  \<open>mkdir\<close> and \<open>writeFile\<close> answer \<open>None\<close> when they succeed and the error
  otherwise; whether they succeed is taken not to depend on what the program made before:
  \<open>mkdir\<close> is always called with \<open>recursive: true\<close>, which succeeds on a directory
  that is there already, and \<open>writeFile\<close> replaces a file that is there already.
\<close>

record 'o world =
  resolve :: "string \<Rightarrow> string \<Rightarrow> string"
  join :: "string list \<Rightarrow> string"
  dirname :: "string \<Rightarrow> string"
  readFile :: "store \<Rightarrow> string \<Rightarrow> js_error + string"
  JSON_parse :: "string \<Rightarrow> js_error + manifest"
  readdir :: "store \<Rightarrow> string \<Rightarrow> js_error + string list"
  mkdir :: "string \<Rightarrow> js_error option"
  writeFile :: "string \<Rightarrow> string \<Rightarrow> js_error option"
  fetch :: "string \<Rightarrow> js_error + response"
  beasties_process :: "store \<Rightarrow> string \<Rightarrow> string \<Rightarrow> 'o \<Rightarrow> string \<Rightarrow> js_error + string"

section \<open>The program\<close>

subsection \<open>\<open>fetchHtml\<close> (generate.mjs, lines 5 to 11)\<close>

definition fetchHtml :: "'o world \<Rightarrow> string \<Rightarrow> js_error + string" where
  "fetchHtml w url =
     (case fetch w url of
        Inl e \<Rightarrow> Inl e
      | Inr response \<Rightarrow>
          if \<not> ok response then
            Inl (Error (''Failed to fetch '' @ url @ '': '' @ show_nat (status response) @
                        '' '' @ statusText response))
          else body_text response)"

subsection \<open>\<open>getBuiltCssInfo\<close> (lines 13 to 48)\<close>

text \<open>
  The first \<open>try\<close> block: \<open>Inl\<close> is an exception (which the \<open>catch\<close> swallows),
  \<open>Inr (Some info)\<close> the \<open>return\<close> inside the \<open>if\<close>, \<open>Inr None\<close> leaving the block
  without returning.
\<close>

definition manifest_try :: "'o world \<Rightarrow> 'o config \<Rightarrow> store \<Rightarrow> js_error + css_info option" where
  "manifest_try w cfg st =
     (let absoluteManifestPath = resolve w (projectRoot cfg) (manifestPath cfg) in
      case readFile w st absoluteManifestPath of
        Inl e \<Rightarrow> Inl e
      | Inr txt \<Rightarrow>
          (case JSON_parse w txt of
             Inl e \<Rightarrow> Inl e
           | Inr manifest \<Rightarrow>
               (case manifest (appEntry cfg) of
                  None \<Rightarrow> Inr None
                | Some entry \<Rightarrow>
                    (case css entry of
                       None \<Rightarrow> Inr None
                     | Some [] \<Rightarrow> Inr None
                     | Some (cssFile # _) \<Rightarrow>
                         Inr (Some \<lparr>absolutePath = join w [projectRoot cfg, ''web/dist'', cssFile],
                                    href = ''/dist/'' @ cssFile\<rparr>)))))"

definition no_css_error :: js_error where
  "no_css_error = Error ''No CSS files found in web/dist/. Run your Vite build first.''"

text \<open>The fallback and the final \<open>throw\<close> (lines 31 to 47).\<close>

definition assets_fallback :: "'o world \<Rightarrow> 'o config \<Rightarrow> store \<Rightarrow> js_error + css_info" where
  "assets_fallback w cfg st =
     (let assetsDir = resolve w (projectRoot cfg) ''web/dist/assets'' in
      case readdir w st assetsDir of
        Inl e \<Rightarrow> Inl no_css_error
      | Inr fs \<Rightarrow>
          (case filter (\<lambda>f. endsWith f ''.css'') fs of
             [] \<Rightarrow> Inl no_css_error
           | f # _ \<Rightarrow>
               (let cssFile = ''assets/'' @ f in
                Inr \<lparr>absolutePath = join w [projectRoot cfg, ''web/dist'', cssFile],
                     href = ''/dist/'' @ cssFile\<rparr>)))"

definition getBuiltCssInfo :: "'o world \<Rightarrow> 'o config \<Rightarrow> store \<Rightarrow> js_error + css_info" where
  "getBuiltCssInfo w cfg st =
     (case manifest_try w cfg st of
        Inr (Some info) \<Rightarrow> Inr info
      | Inr None \<Rightarrow> assets_fallback w cfg st
      | Inl e \<Rightarrow> assets_fallback w cfg st)"

subsection \<open>Sanitizing the fetched HTML (lines 94 to 103)\<close>

definition lit :: "string \<Rightarrow> item list" where
  "lit w = map (\<lambda>c. Atom (Ch c)) w"

text \<open>\<^verbatim>\<open>/<style[^>]*>([\s\S]*?)<\/style>/gi\<close>\<close>

definition style_re :: regex where
  "style_re =
     \<lparr>ignoreCase = True,
      items = lit ''<style'' @ [Greedy (Not (CHR ''>'')), Atom (Ch (CHR ''>'')), CapLazy Any] @
              lit ''</style>''\<rparr>"

text \<open>\<^verbatim>\<open>/<link[^>]*rel=["']stylesheet["'][^>]*>/gi\<close>\<close>

definition link_re :: regex where
  "link_re =
     \<lparr>ignoreCase = True,
      items = lit ''<link'' @ [Greedy (Not (CHR ''>''))] @ lit ''rel='' @ [Atom (OneOf [dq, sq])] @
              lit ''stylesheet'' @
              [Atom (OneOf [dq, sq]), Greedy (Not (CHR ''>'')), Atom (Ch (CHR ''>''))]\<rparr>"

definition placeholder :: string where
  "placeholder = ''<!-- existing-style-placeholder -->''"

definition strip_styles :: "string \<Rightarrow> string" where
  "strip_styles html = replace_all style_re (\<lambda>mt. placeholder) html"

definition strip_links :: "string \<Rightarrow> string" where
  "strip_links html = replace_all link_re (\<lambda>mt. []) html"

definition link_tag :: "string \<Rightarrow> string" where
  \<open>link_tag h = ''<link rel="stylesheet" href="'' @ h @ ''">''\<close>

definition inject_link :: "string \<Rightarrow> string \<Rightarrow> string" where
  "inject_link h html = replace_string ''</head>'' (link_tag h @ [newline] @ ''</head>'') html"

definition sanitize :: "string \<Rightarrow> string \<Rightarrow> string" where
  "sanitize h html = inject_link h (strip_links (strip_styles html))"

subsection \<open>Reading the critical CSS out of the engine's output (lines 107 to 120)\<close>

text \<open>\<^verbatim>\<open>/<style[^>]*data-href[^>]*>([\s\S]*?)<\/style>/i\<close>\<close>

definition marked_re :: regex where
  "marked_re =
     \<lparr>ignoreCase = True,
      items = lit ''<style'' @ [Greedy (Not (CHR ''>''))] @ lit ''data-href'' @
              [Greedy (Not (CHR ''>'')), Atom (Ch (CHR ''>'')), CapLazy Any] @ lit ''</style>''\<rparr>"

text \<open>\<open>match[1]\<close>; each of the expressions above has exactly one group.\<close>

fun group1 :: "match \<Rightarrow> string" where
  "group1 (m, []) = []"
| "group1 (m, g # caps) = g"

definition extract_critical :: "string \<Rightarrow> string" where
  "extract_critical processedHtml =
     (case match_first marked_re processedHtml of
        Some criticalStyleMatch \<Rightarrow> group1 criticalStyleMatch
      | None \<Rightarrow>
          fold (\<lambda>mt criticalCss.
                  if \<not> includes_str (fst mt) ''existing-style-placeholder''
                  then criticalCss @ group1 mt else criticalCss)
            (matchAll style_re processedHtml) [])"

subsection \<open>One page (the body of the loop, lines 85 to 141)\<close>

text \<open>The \<open>try\<close> block: \<open>Inl\<close> is an exception on its way to the \<open>catch\<close>.\<close>

definition page_try ::
  "'o world \<Rightarrow> 'o config \<Rightarrow> css_info \<Rightarrow> page_spec \<Rightarrow> store \<Rightarrow> (js_error + page_result) \<times> store" where
  "page_try w cfg cssInfo pg st =
     (let url = baseUrl cfg @ uri pg;
          outputFilename = template pg @ ''_critical.min.css'';
          outputPath = join w [outputDir cfg, outputFilename];
          st1 = st\<lparr>requests := requests st @ [url]\<rparr>
      in case fetchHtml w url of
           Inl e \<Rightarrow> (Inl e, st1)
         | Inr html \<Rightarrow>
             (case beasties_process w st1 (resolve w (projectRoot cfg) (publicDir cfg))
                     (publicPath cfg) (beasties cfg) (sanitize (href cssInfo) html) of
                Inl e \<Rightarrow> (Inl e, st1)
              | Inr processedHtml \<Rightarrow>
                  (let criticalCss = extract_critical processedHtml in
                   if criticalCss = [] \<or> length (trim criticalCss) = 0 then
                     (Inr \<lparr>page = pg, success = False, size_kb = None,
                           error = Some ''No critical CSS extracted''\<rparr>, st1)
                   else
                     (let criticalCss = trim criticalCss in
                      case mkdir w (dirname w outputPath) of
                        Some e \<Rightarrow> (Inl e, st1)
                      | None \<Rightarrow>
                          (let st2 = st1\<lparr>dirs := insert (dirname w outputPath) (dirs st1)\<rparr> in
                           case writeFile w outputPath criticalCss of
                             Some e \<Rightarrow> (Inl e, st2)
                           | None \<Rightarrow>
                               (Inr \<lparr>page = pg, success = True,
                                     size_kb = Some (toFixed2_kb (length criticalCss)),
                                     error = None\<rparr>,
                                st2\<lparr>files := (files st2)(outputPath \<mapsto> criticalCss)\<rparr>))))))"

definition process_page ::
  "'o world \<Rightarrow> 'o config \<Rightarrow> css_info \<Rightarrow> page_spec \<Rightarrow> store \<Rightarrow> page_result \<times> store" where
  "process_page w cfg cssInfo pg st =
     (case page_try w cfg cssInfo pg st of
        (Inr r, st') \<Rightarrow> (r, st')
      | (Inl e, st') \<Rightarrow>
          (\<lparr>page = pg, success = False, size_kb = None, error = Some (message e)\<rparr>, st'))"

subsection \<open>\<open>generateCriticalCss\<close> (lines 65 to 156)\<close>

text \<open>The loop over the pages, pushing one result per page.\<close>

fun page_loop ::
  "'o world \<Rightarrow> 'o config \<Rightarrow> css_info \<Rightarrow> page_spec list \<Rightarrow> page_result list \<Rightarrow> store \<Rightarrow>
   page_result list \<times> store" where
  "page_loop w cfg cssInfo [] rs st = (rs, st)"
| "page_loop w cfg cssInfo (pg # pgs) rs st =
     (case process_page w cfg cssInfo pg st of
        (r, st') \<Rightarrow> page_loop w cfg cssInfo pgs (rs @ [r]) st')"

definition generateCriticalCss ::
  "'o world \<Rightarrow> 'o config \<Rightarrow> store \<Rightarrow> (js_error + run_summary) \<times> store" where
  "generateCriticalCss w cfg st =
     (case mkdir w (outputDir cfg) of
        Some e \<Rightarrow> (Inl e, st)
      | None \<Rightarrow>
          (let st0 = st\<lparr>dirs := insert (outputDir cfg) (dirs st)\<rparr> in
           case getBuiltCssInfo w cfg st0 of
             Inl e \<Rightarrow> (Inl e, st0)
           | Inr cssInfo \<Rightarrow>
               (case page_loop w cfg cssInfo (pages cfg) [] st0 of
                  (rs, st') \<Rightarrow>
                    (Inr \<lparr>results = rs,
                          successful = length (filter (\<lambda>r. success r) rs),
                          failed = length (filter (\<lambda>r. \<not> success r) rs)\<rparr>, st'))))"

section \<open>A concrete run\<close>

text \<open>
  A small world to run the program in: a project with a manifest whose entry lists one
  CSS file, a site with a page that has a heading, a plain page and no other page, and an
  engine that inlines a marked style block into pages with a heading. Its answers are
  the same whatever the store holds.
\<close>

definition demo_manifest_text :: string where
  \<open>demo_manifest_text = ''{"src/js/app.ts":{"file":"assets/app.js","css":["assets/app.css"]}}''\<close>

definition demo_page_html :: string where
  \<open>demo_page_html = ''<html><head><style>a{color:red}</style><link rel="stylesheet" href="x.css"></head><body><h1>Hi</h1></body></html>''\<close>

definition demo_engine_output :: string where
  \<open>demo_engine_output = ''<html><head><!-- existing-style-placeholder --><style data-href="/dist/assets/app.css">h1{color:blue}</style></head><body><h1>Hi</h1></body></html>''\<close>

definition demo_world :: "unit world" where
  "demo_world =
     \<lparr>resolve = (\<lambda>a b. a @ ''/'' @ b),
      join = (\<lambda>xs. case xs of [] \<Rightarrow> ''.'' | x # ys \<Rightarrow> foldl (\<lambda>a b. a @ ''/'' @ b) x ys),
      dirname = (\<lambda>p. rev (drop 1 (dropWhile (\<lambda>c. c \<noteq> CHR ''/'') (rev p)))),
      readFile = (\<lambda>s p. if p = ''/site/web/dist/.vite/manifest.json'' then Inr demo_manifest_text
                         else Inl (Error ''ENOENT'')),
      JSON_parse = (\<lambda>t. if t = demo_manifest_text
                         then Inr [''src/js/app.ts'' \<mapsto> \<lparr>css = Some [''assets/app.css'']\<rparr>]
                         else Inl (Error ''Unexpected token'')),
      readdir = (\<lambda>s p. Inl (Error ''ENOENT'')),
      mkdir = (\<lambda>p. None),
      writeFile = (\<lambda>p c. None),
      fetch = (\<lambda>u. if u = ''https://site.test/''
                    then Inr \<lparr>status = 200, statusText = ''OK'', body_text = Inr demo_page_html\<rparr>
                    else if u = ''https://site.test/plain''
                    then Inr \<lparr>status = 200, statusText = ''OK'', body_text = Inr ''<html></html>''\<rparr>
                    else Inr \<lparr>status = 404, statusText = ''Not Found'', body_text = Inr ''gone''\<rparr>),
      beasties_process =
        (\<lambda>s p pp opts h. if includes_str h ''<h1>'' then Inr demo_engine_output else Inr h)\<rparr>"

definition demo_config :: "unit config" where
  "demo_config =
     \<lparr>projectRoot = ''/site'', baseUrl = ''https://site.test'', outputDir = ''/site/web/dist/criticalcss'',
      manifestPath = ''web/dist/.vite/manifest.json'', appEntry = ''src/js/app.ts'',
      publicDir = ''web'', publicPath = ''/'',
      pages = [\<lparr>uri = ''/'', template = ''index''\<rparr>, \<lparr>uri = ''/missing'', template = ''missing''\<rparr>,
               \<lparr>uri = ''/plain'', template = ''plain''\<rparr>],
      beasties = ()\<rparr>"

definition empty_store :: store where
  "empty_store = \<lparr>dirs = {}, files = Map.empty, requests = []\<rparr>"

definition demo_summary :: run_summary where
  "demo_summary =
     \<lparr>results =
        [\<lparr>page = \<lparr>uri = ''/'', template = ''index''\<rparr>, success = True,
          size_kb = Some ''0.01'', error = None\<rparr>,
         \<lparr>page = \<lparr>uri = ''/missing'', template = ''missing''\<rparr>, success = False,
          size_kb = None,
          error = Some ''Failed to fetch https://site.test/missing: 404 Not Found''\<rparr>,
         \<lparr>page = \<lparr>uri = ''/plain'', template = ''plain''\<rparr>, success = False,
          size_kb = None, error = Some ''No critical CSS extracted''\<rparr>],
      successful = 1, failed = 2\<rparr>"

lemma demo_css:
  "getBuiltCssInfo demo_world demo_config st =
     Inr \<lparr>absolutePath = ''/site/web/dist/assets/app.css'', href = ''/dist/assets/app.css''\<rparr>"
  by (simp add: getBuiltCssInfo_def manifest_try_def demo_world_def demo_config_def)

lemma demo_run_fst:
  "fst (generateCriticalCss demo_world demo_config empty_store) = Inr demo_summary"
  by code_simp

lemma demo_run:
  "generateCriticalCss demo_world demo_config empty_store =
     (Inr demo_summary, snd (generateCriticalCss demo_world demo_config empty_store))"
  using demo_run_fst by (metis prod.collapse)

section \<open>The loop over the pages\<close>

lemma process_page_page: "page (fst (process_page w cfg ci pg st)) = pg"
  by (simp add: process_page_def page_try_def Let_def split: sum.splits option.splits prod.splits)

lemma process_page_requests:
  "requests (snd (process_page w cfg ci pg st)) = requests st @ [baseUrl cfg @ uri pg]"
  by (simp add: process_page_def page_try_def Let_def split: sum.splits option.splits prod.splits)

lemma page_loop_pages:
  "map page (fst (page_loop w cfg ci pgs rs st)) = map page rs @ pgs"
proof (induction pgs arbitrary: rs st)
  case Nil
  show ?case by simp
next
  case (Cons pg pgs)
  obtain r st1 where step: "process_page w cfg ci pg st = (r, st1)"
    by (cases "process_page w cfg ci pg st")
  have "page r = pg"
    using process_page_page [of w cfg ci pg st] step by simp
  with Cons [of "rs @ [r]" st1] step show ?case by simp
qed

lemma page_loop_length:
  "length (fst (page_loop w cfg ci pgs rs st)) = length rs + length pgs"
  using page_loop_pages [of w cfg ci pgs rs st, THEN arg_cong, of length] by simp

lemma page_loop_keeps:
  "i < length rs \<Longrightarrow> fst (page_loop w cfg ci pgs rs st) ! i = rs ! i"
proof (induction pgs arbitrary: rs st)
  case Nil
  show ?case by simp
next
  case (Cons pg pgs)
  obtain r st1 where step: "process_page w cfg ci pg st = (r, st1)"
    by (cases "process_page w cfg ci pg st")
  from Cons.prems have "i < length (rs @ [r])" by simp
  from Cons.IH [OF this, of st1] Cons.prems step show ?case by (simp add: nth_append)
qed

text \<open>Result \<open>i\<close> is the result of processing page \<open>i\<close>, in the store of that moment.\<close>

lemma page_loop_nth:
  "i < length pgs \<Longrightarrow>
     \<exists>s. fst (page_loop w cfg ci pgs rs st) ! (length rs + i) = fst (process_page w cfg ci (pgs ! i) s)"
proof (induction pgs arbitrary: rs st i)
  case Nil
  then show ?case by simp
next
  case (Cons pg pgs)
  obtain r st1 where step: "process_page w cfg ci pg st = (r, st1)"
    by (cases "process_page w cfg ci pg st")
  show ?case
  proof (cases i)
    case 0
    have "fst (page_loop w cfg ci pgs (rs @ [r]) st1) ! length rs = (rs @ [r]) ! length rs"
      by (rule page_loop_keeps) simp
    then have "fst (page_loop w cfg ci (pg # pgs) rs st) ! (length rs + i) =
        fst (process_page w cfg ci pg st)"
      using step 0 by simp
    with 0 show ?thesis by auto
  next
    case (Suc j)
    with Cons.prems have j: "j < length pgs" by simp
    from Cons.IH [OF j, of "rs @ [r]" st1] obtain s where
      "fst (page_loop w cfg ci pgs (rs @ [r]) st1) ! (length (rs @ [r]) + j) =
         fst (process_page w cfg ci (pgs ! j) s)" ..
    then have "fst (page_loop w cfg ci (pg # pgs) rs st) ! (length rs + i) =
        fst (process_page w cfg ci ((pg # pgs) ! i) s)"
      using step Suc by simp
    then show ?thesis ..
  qed
qed

lemma page_loop_requests:
  "requests (snd (page_loop w cfg ci pgs rs st)) = requests st @ map (\<lambda>pg. baseUrl cfg @ uri pg) pgs"
proof (induction pgs arbitrary: rs st)
  case Nil
  show ?case by simp
next
  case (Cons pg pgs)
  obtain r st1 where step: "process_page w cfg ci pg st = (r, st1)"
    by (cases "process_page w cfg ci pg st")
  have "requests st1 = requests st @ [baseUrl cfg @ uri pg]"
    using process_page_requests [of w cfg ci pg st] step by simp
  with Cons [of "rs @ [r]" st1] step show ?case by simp
qed

lemma run_Inr:
  assumes "generateCriticalCss w cfg st = (Inr summary, st')"
  obtains ci where "mkdir w (outputDir cfg) = None"
    "getBuiltCssInfo w cfg (st\<lparr>dirs := insert (outputDir cfg) (dirs st)\<rparr>) = Inr ci"
    "results summary = fst (page_loop w cfg ci (pages cfg) [] (st\<lparr>dirs := insert (outputDir cfg) (dirs st)\<rparr>))"
    "st' = snd (page_loop w cfg ci (pages cfg) [] (st\<lparr>dirs := insert (outputDir cfg) (dirs st)\<rparr>))"
    "successful summary = length (filter success (results summary))"
    "failed summary = length (filter (\<lambda>r. \<not> success r) (results summary))"
  using assms
  by (auto simp: generateCriticalCss_def Let_def split: option.splits sum.splits prod.splits)

section \<open>The claims\<close>

text \<open>
  C1. Whatever the list of pages, the summary the run returns counts every result once:
  \<open>successful\<close> is the number of results with \<open>success\<close> true, \<open>failed\<close> the number
  of results with \<open>success\<close> false, and the two add up to the number of results.
\<close>

theorem summary_partition:
  assumes "generateCriticalCss w cfg st = (Inr summary, st')"
  shows "successful summary + failed summary = length (results summary) \<and>
         successful summary = length (filter (\<lambda>r. success r) (results summary)) \<and>
         failed summary = length (filter (\<lambda>r. \<not> success r) (results summary))"
proof -
  from assms obtain ci where
    s: "successful summary = length (filter success (results summary))" and
    f: "failed summary = length (filter (\<lambda>r. \<not> success r) (results summary))"
    by (rule run_Inr)
  show ?thesis
    using s f sum_length_filter_compl [of success "results summary"] by simp
qed

theorem summary_partition_witness:
  "fst (generateCriticalCss demo_world demo_config empty_store) = Inr demo_summary \<and>
   successful demo_summary + failed demo_summary = length (results demo_summary) \<and>
   successful demo_summary = 1 \<and> failed demo_summary = 2"
  using summary_partition [OF demo_run] demo_run_fst
  by (simp add: demo_summary_def)

text \<open>
  C2. Whatever the list of pages, the results of the summary are one per page and in the
  order of the pages: result \<open>i\<close> carries page \<open>i\<close>.
\<close>

theorem results_follow_pages:
  assumes "generateCriticalCss w cfg st = (Inr summary, st')"
  shows "map page (results summary) = pages cfg \<and>
         length (results summary) = length (pages cfg) \<and>
         (\<forall>i < length (pages cfg). page (results summary ! i) = pages cfg ! i)"
proof -
  from assms obtain ci where
    r: "results summary =
          fst (page_loop w cfg ci (pages cfg) [] (st\<lparr>dirs := insert (outputDir cfg) (dirs st)\<rparr>))"
    by (rule run_Inr)
  have m: "map page (results summary) = pages cfg"
    unfolding r page_loop_pages by simp
  then have l: "length (results summary) = length (pages cfg)"
    by (metis length_map)
  have "\<forall>i < length (pages cfg). page (results summary ! i) = pages cfg ! i"
    using m l by (metis nth_map)
  with m l show ?thesis by simp
qed

theorem results_follow_pages_witness:
  "fst (generateCriticalCss demo_world demo_config empty_store) = Inr demo_summary \<and>
   map page (results demo_summary) = pages demo_config \<and>
   length (pages demo_config) = 3"
  using results_follow_pages [OF demo_run] demo_run_fst
  by (simp add: demo_config_def)

subsection \<open>The asset locator\<close>

text \<open>
  The asset locator as section 4.1 of the specification words it. Steps 1 and 2: the
  first CSS file that the manifest lists for the configured entry, if the manifest can be
  read and parsed and the entry has a non-empty list. Step 3: otherwise the first file of
  \<open>web/dist/assets\<close> whose name ends in \<open>.css\<close>, as \<open>assets/<file>\<close>. The path and
  the href are computed from the CSS file in the same way in both cases. Step 4: with no
  file from either, the "no CSS found" error.
\<close>

definition manifest_css_spec :: "'o world \<Rightarrow> 'o config \<Rightarrow> store \<Rightarrow> string option" where
  "manifest_css_spec w cfg st =
     (case readFile w st (resolve w (projectRoot cfg) (manifestPath cfg)) of
        Inl e \<Rightarrow> None
      | Inr txt \<Rightarrow>
          (case JSON_parse w txt of
             Inl e \<Rightarrow> None
           | Inr m \<Rightarrow>
               (case m (appEntry cfg) of
                  None \<Rightarrow> None
                | Some entry \<Rightarrow>
                    (case css entry of
                       None \<Rightarrow> None
                     | Some fs \<Rightarrow> if fs = [] then None else Some (hd fs)))))"

definition fallback_css_spec :: "'o world \<Rightarrow> 'o config \<Rightarrow> store \<Rightarrow> string option" where
  "fallback_css_spec w cfg st =
     (case readdir w st (resolve w (projectRoot cfg) ''web/dist/assets'') of
        Inl e \<Rightarrow> None
      | Inr fs \<Rightarrow> map_option (\<lambda>f. ''assets/'' @ f) (find (\<lambda>f. suffix ''.css'' f) fs))"

definition css_info_spec :: "'o world \<Rightarrow> 'o config \<Rightarrow> string \<Rightarrow> css_info" where
  "css_info_spec w cfg cssFile =
     \<lparr>absolutePath = join w [projectRoot cfg, ''web/dist'', cssFile], href = ''/dist/'' @ cssFile\<rparr>"

definition asset_locator_spec :: "'o world \<Rightarrow> 'o config \<Rightarrow> store \<Rightarrow> js_error + css_info" where
  "asset_locator_spec w cfg st =
     (case manifest_css_spec w cfg st of
        Some cssFile \<Rightarrow> Inr (css_info_spec w cfg cssFile)
      | None \<Rightarrow>
          (case fallback_css_spec w cfg st of
             Some cssFile \<Rightarrow> Inr (css_info_spec w cfg cssFile)
           | None \<Rightarrow> Inl no_css_error))"

lemma endsWith_suffix: "endsWith s w = suffix w s"
  by (simp add: endsWith_def suffix_to_prefix)

lemma filter_find: "(case filter P xs of [] \<Rightarrow> None | x # _ \<Rightarrow> Some x) = find P xs"
  by (induction xs) auto

lemma assets_fallback_spec:
  "assets_fallback w cfg st =
     (case fallback_css_spec w cfg st of
        Some cssFile \<Rightarrow> Inr (css_info_spec w cfg cssFile)
      | None \<Rightarrow> Inl no_css_error)"
proof (cases "readdir w st (resolve w (projectRoot cfg) ''web/dist/assets'')")
  case (Inl e)
  then show ?thesis by (simp add: assets_fallback_def fallback_css_spec_def)
next
  case (Inr fs)
  have "find (\<lambda>f. suffix ''.css'' f) fs = (case filter (\<lambda>f. endsWith f ''.css'') fs of [] \<Rightarrow> None | x # _ \<Rightarrow> Some x)"
    by (simp add: filter_find endsWith_suffix)
  with Inr show ?thesis
    by (simp add: assets_fallback_def fallback_css_spec_def css_info_spec_def Let_def split: list.splits)
qed

lemma manifest_try_spec:
  "(case manifest_try w cfg st of Inr (Some info) \<Rightarrow> Some info | _ \<Rightarrow> None) =
     map_option (css_info_spec w cfg) (manifest_css_spec w cfg st)"
  by (simp add: manifest_try_def manifest_css_spec_def css_info_spec_def Let_def
      split: sum.splits option.splits list.splits)

text \<open>
  C3. The asset locator of the program is the reference definition above, for every
  file system, whatever the disk holds, and every configuration: it never raises on a
  missing file, malformed JSON or a missing or empty entry, but takes the fallback.
\<close>

theorem asset_locator_refines_spec:
  "getBuiltCssInfo w cfg st = asset_locator_spec w cfg st"
proof (cases "manifest_css_spec w cfg st")
  case None
  with manifest_try_spec [of w cfg st]
  have "getBuiltCssInfo w cfg st = assets_fallback w cfg st"
    by (auto simp: getBuiltCssInfo_def split: sum.splits option.splits)
  with None show ?thesis
    by (simp add: asset_locator_spec_def assets_fallback_spec)
next
  case (Some f)
  with manifest_try_spec [of w cfg st]
  have "manifest_try w cfg st = Inr (Some (css_info_spec w cfg f))"
    by (auto split: sum.splits option.splits)
  with Some show ?thesis
    by (simp add: getBuiltCssInfo_def asset_locator_spec_def)
qed

subsection \<open>Failing fetches\<close>

lemma fetchHtml_not_ok:
  assumes "fetch w url = Inr r" and "\<not> ok r"
  shows "fetchHtml w url =
     Inl (Error (''Failed to fetch '' @ url @ '': '' @ show_nat (status r) @ '' '' @ statusText r))"
  using assms by (simp add: fetchHtml_def)

lemma process_page_fetch_error:
  assumes "fetchHtml w (baseUrl cfg @ uri pg) = Inl e"
  shows "process_page w cfg ci pg st =
     (\<lparr>page = pg, success = False, size_kb = None, error = Some (message e)\<rparr>,
      st\<lparr>requests := requests st @ [baseUrl cfg @ uri pg]\<rparr>)"
  using assms by (simp add: process_page_def page_try_def Let_def)

text \<open>
  C5. When the server answers the request for page \<open>i\<close> with a status outside 200
  to 299, \<open>fetchHtml\<close> raises an error whose message holds the URL, the status code and the
  status text; the result recorded for page \<open>i\<close> is a failure with that message; and
  the run still requests every page and records one result for each.
\<close>

theorem fetch_failure_is_page_local:
  assumes run: "generateCriticalCss w cfg st = (Inr summary, st')"
    and i: "i < length (pages cfg)"
    and f: "fetch w (baseUrl cfg @ uri (pages cfg ! i)) = Inr r"
    and nok: "\<not> (200 \<le> status r \<and> status r \<le> 299)"
  shows "fetchHtml w (baseUrl cfg @ uri (pages cfg ! i)) =
           Inl (Error (''Failed to fetch '' @ (baseUrl cfg @ uri (pages cfg ! i)) @ '': '' @
                       show_nat (status r) @ '' '' @ statusText r)) \<and>
         results summary ! i =
           \<lparr>page = pages cfg ! i, success = False, size_kb = None,
            error = Some (''Failed to fetch '' @ (baseUrl cfg @ uri (pages cfg ! i)) @ '': '' @
                          show_nat (status r) @ '' '' @ statusText r)\<rparr> \<and>
         length (results summary) = length (pages cfg) \<and>
         requests st' = requests st @ map (\<lambda>pg. baseUrl cfg @ uri pg) (pages cfg)"
proof -
  let ?url = "baseUrl cfg @ uri (pages cfg ! i)"
  let ?e = "Error (''Failed to fetch '' @ ?url @ '': '' @ show_nat (status r) @ '' '' @ statusText r)"
  let ?st0 = "st\<lparr>dirs := insert (outputDir cfg) (dirs st)\<rparr>"
  from run obtain ci where
    r: "results summary = fst (page_loop w cfg ci (pages cfg) [] ?st0)" and
    s: "st' = snd (page_loop w cfg ci (pages cfg) [] ?st0)"
    by (rule run_Inr)
  have fe: "fetchHtml w ?url = Inl ?e"
    using f nok by (simp add: fetchHtml_not_ok ok_def)
  from page_loop_nth [OF i, of w cfg ci "[]" ?st0] obtain s0 where
    "results summary ! i = fst (process_page w cfg ci (pages cfg ! i) s0)"
    unfolding r by auto
  also have "\<dots> = \<lparr>page = pages cfg ! i, success = False, size_kb = None, error = Some (message ?e)\<rparr>"
    using process_page_fetch_error [OF fe] by simp
  finally have ri: "results summary ! i =
      \<lparr>page = pages cfg ! i, success = False, size_kb = None, error = Some (message ?e)\<rparr>" .
  have len: "length (results summary) = length (pages cfg)"
    unfolding r page_loop_length by simp
  have rq: "requests st' = requests st @ map (\<lambda>pg. baseUrl cfg @ uri pg) (pages cfg)"
    unfolding s page_loop_requests by simp
  from fe ri len rq show ?thesis by simp
qed

theorem fetch_failure_is_page_local_witness:
  "fetch demo_world (baseUrl demo_config @ uri (pages demo_config ! 1)) =
     Inr \<lparr>status = 404, statusText = ''Not Found'', body_text = Inr ''gone''\<rparr> \<and>
   results demo_summary ! 1 =
     \<lparr>page = \<lparr>uri = ''/missing'', template = ''missing''\<rparr>, success = False, size_kb = None,
      error = Some ''Failed to fetch https://site.test/missing: 404 Not Found''\<rparr> \<and>
   requests (snd (generateCriticalCss demo_world demo_config empty_store)) =
     [''https://site.test/'', ''https://site.test/missing'', ''https://site.test/plain'']"
proof -
  have f: "fetch demo_world (baseUrl demo_config @ uri (pages demo_config ! 1)) =
     Inr \<lparr>status = 404, statusText = ''Not Found'', body_text = Inr ''gone''\<rparr>"
    by (simp add: demo_world_def demo_config_def)
  have i: "1 < length (pages demo_config)"
    by (simp add: demo_config_def)
  have nok: "\<not> (200 \<le> status \<lparr>status = 404, statusText = ''Not Found'', body_text = Inr ''gone''\<rparr> \<and>
     status \<lparr>status = 404, statusText = ''Not Found'', body_text = Inr ''gone''\<rparr> \<le> 299)"
    by simp
  from fetch_failure_is_page_local [OF demo_run i f nok] f
  show ?thesis
    by (simp add: demo_config_def demo_summary_def empty_store_def)
qed

subsection \<open>No CSS file\<close>










subsection \<open>Running twice\<close>

text \<open>
  The files a run may write, one for each page (\<open>outputPath\<close>, line 87), and the
  directories it may make: the output directory (line 70) and the directory of each of
  those files (line 131).
\<close>

definition output_files :: "'o world \<Rightarrow> 'o config \<Rightarrow> string set" where
  "output_files w cfg =
     (\<lambda>pg. join w [outputDir cfg, template pg @ ''_critical.min.css'']) ` set (pages cfg)"

definition output_dirs :: "'o world \<Rightarrow> 'o config \<Rightarrow> string set" where
  "output_dirs w cfg = insert (outputDir cfg) (dirname w ` output_files w cfg)"

text \<open>Two stores hold the same files and directories, those apart that a run may make.\<close>

definition same_apart :: "'o world \<Rightarrow> 'o config \<Rightarrow> store \<Rightarrow> store \<Rightarrow> bool" where
  "same_apart w cfg s s' \<longleftrightarrow>
     (\<forall>p. p \<notin> output_files w cfg \<longrightarrow> files s p = files s' p) \<and>
     (\<forall>d. d \<notin> output_dirs w cfg \<longrightarrow> (d \<in> dirs s \<longleftrightarrow> d \<in> dirs s'))"

text \<open>
  The run does not read what it writes: on two disks that differ only in what a run may
  make, the manifest reads the same, the assets directory lists the same, and the engine
  answers the same on every document the run hands to it (a fetched page, sanitized with
  the href of the located stylesheet).
\<close>

definition reads_apart :: "'o world \<Rightarrow> 'o config \<Rightarrow> bool" where
  "reads_apart w cfg \<longleftrightarrow>
     (\<forall>s s'. same_apart w cfg s s' \<longrightarrow>
        readFile w s (resolve w (projectRoot cfg) (manifestPath cfg)) =
          readFile w s' (resolve w (projectRoot cfg) (manifestPath cfg)) \<and>
        readdir w s (resolve w (projectRoot cfg) ''web/dist/assets'') =
          readdir w s' (resolve w (projectRoot cfg) ''web/dist/assets'') \<and>
        (\<forall>ci pg html.
           getBuiltCssInfo w cfg s = Inr ci \<and> pg \<in> set (pages cfg) \<and>
           fetchHtml w (baseUrl cfg @ uri pg) = Inr html \<longrightarrow>
           beasties_process w s (resolve w (projectRoot cfg) (publicDir cfg)) (publicPath cfg)
             (beasties cfg) (sanitize (href ci) html) =
           beasties_process w s' (resolve w (projectRoot cfg) (publicDir cfg)) (publicPath cfg)
             (beasties cfg) (sanitize (href ci) html)))"

lemma same_apart_refl: "same_apart w cfg s s"
  by (simp add: same_apart_def)

lemma same_apart_sym: "same_apart w cfg s s' \<Longrightarrow> same_apart w cfg s' s"
  by (simp add: same_apart_def)

lemma same_apart_trans:
  "same_apart w cfg s s' \<Longrightarrow> same_apart w cfg s' s'' \<Longrightarrow> same_apart w cfg s s''"
  by (simp add: same_apart_def)

lemma same_apart_requests: "same_apart w cfg s (s\<lparr>requests := r\<rparr>)"
  by (simp add: same_apart_def)

lemma same_apart_outputDir:
  "same_apart w cfg s (s\<lparr>dirs := insert (outputDir cfg) (dirs s)\<rparr>)"
  by (simp add: same_apart_def output_dirs_def)

lemma located_apart:
  assumes "reads_apart w cfg" and "same_apart w cfg s s'"
  shows "getBuiltCssInfo w cfg s = getBuiltCssInfo w cfg s'"
proof -
  from assms have
    "readFile w s (resolve w (projectRoot cfg) (manifestPath cfg)) =
       readFile w s' (resolve w (projectRoot cfg) (manifestPath cfg))"
    "readdir w s (resolve w (projectRoot cfg) ''web/dist/assets'') =
       readdir w s' (resolve w (projectRoot cfg) ''web/dist/assets'')"
    unfolding reads_apart_def by blast+
  then have "manifest_try w cfg s = manifest_try w cfg s'"
    "assets_fallback w cfg s = assets_fallback w cfg s'"
    by (simp_all add: manifest_try_def assets_fallback_def Let_def)
  then show ?thesis
    by (simp add: getBuiltCssInfo_def split: sum.splits option.splits)
qed

lemma engine_apart:
  assumes "reads_apart w cfg" and "same_apart w cfg s s'"
    and "getBuiltCssInfo w cfg s = Inr ci" and "pg \<in> set (pages cfg)"
    and "fetchHtml w (baseUrl cfg @ uri pg) = Inr html"
  shows "beasties_process w s (resolve w (projectRoot cfg) (publicDir cfg)) (publicPath cfg)
             (beasties cfg) (sanitize (href ci) html) =
         beasties_process w s' (resolve w (projectRoot cfg) (publicDir cfg)) (publicPath cfg)
             (beasties cfg) (sanitize (href ci) html)"
  using assms unfolding reads_apart_def by blast

text \<open>A page adds at most its own file and that file's directory.\<close>

lemma process_page_apart:
  assumes "pg \<in> set (pages cfg)"
  shows "same_apart w cfg st (snd (process_page w cfg ci pg st))"
proof -
  have f: "join w [outputDir cfg, template pg @ ''_critical.min.css''] \<in> output_files w cfg"
    using assms by (auto simp: output_files_def)
  then have d: "dirname w (join w [outputDir cfg, template pg @ ''_critical.min.css'']) \<in>
      output_dirs w cfg"
    by (simp add: output_dirs_def)
  show ?thesis
    using f d
    by (auto simp: same_apart_def process_page_def page_try_def Let_def
        split: sum.splits option.splits prod.splits)
qed

text \<open>
  What a page adds to the store, as a function of what the engine answers: the files
  \<open>W\<close> and directories \<open>D\<close> are the same from two stores on which the reads agree.
\<close>

lemma process_page_cong:
  assumes ra: "reads_apart w cfg" and ap: "same_apart w cfg s s'"
    and ci: "getBuiltCssInfo w cfg s = Inr ci" and pg: "pg \<in> set (pages cfg)"
  shows "fst (process_page w cfg ci pg s) = fst (process_page w cfg ci pg s') \<and>
         (\<exists>W D. files (snd (process_page w cfg ci pg s)) = files s ++ W \<and>
                files (snd (process_page w cfg ci pg s')) = files s' ++ W \<and>
                dirs (snd (process_page w cfg ci pg s)) = dirs s \<union> D \<and>
                dirs (snd (process_page w cfg ci pg s')) = dirs s' \<union> D)"
proof (cases "fetchHtml w (baseUrl cfg @ uri pg)")
  case (Inl e)
  then have "fst (process_page w cfg ci pg s) = fst (process_page w cfg ci pg s')"
    "files (snd (process_page w cfg ci pg s)) = files s ++ Map.empty"
    "files (snd (process_page w cfg ci pg s')) = files s' ++ Map.empty"
    "dirs (snd (process_page w cfg ci pg s)) = dirs s \<union> {}"
    "dirs (snd (process_page w cfg ci pg s')) = dirs s' \<union> {}"
    by (simp_all add: process_page_def page_try_def Let_def)
  then show ?thesis by blast
next
  case (Inr html)
  let ?s1 = "s\<lparr>requests := requests s @ [baseUrl cfg @ uri pg]\<rparr>"
  let ?s1' = "s'\<lparr>requests := requests s' @ [baseUrl cfg @ uri pg]\<rparr>"
  let ?P = "resolve w (projectRoot cfg) (publicDir cfg)"
  let ?p = "join w [outputDir cfg, template pg @ ''_critical.min.css'']"
  have a1: "same_apart w cfg s ?s1" by (rule same_apart_requests)
  have "same_apart w cfg s' ?s1'" by (rule same_apart_requests)
  with ap a1 have a: "same_apart w cfg ?s1 ?s1'"
    using same_apart_sym same_apart_trans by blast
  have "getBuiltCssInfo w cfg ?s1 = Inr ci"
    using located_apart [OF ra a1] ci by simp
  from engine_apart [OF ra a this pg Inr]
  have e: "beasties_process w ?s1' ?P (publicPath cfg) (beasties cfg) (sanitize (href ci) html) =
      beasties_process w ?s1 ?P (publicPath cfg) (beasties cfg) (sanitize (href ci) html)"
    by simp
  show ?thesis
  proof (cases "beasties_process w ?s1 ?P (publicPath cfg) (beasties cfg) (sanitize (href ci) html)")
    case (Inl err)
    with Inr e have "fst (process_page w cfg ci pg s) = fst (process_page w cfg ci pg s')"
      "files (snd (process_page w cfg ci pg s)) = files s ++ Map.empty"
      "files (snd (process_page w cfg ci pg s')) = files s' ++ Map.empty"
      "dirs (snd (process_page w cfg ci pg s)) = dirs s \<union> {}"
      "dirs (snd (process_page w cfg ci pg s')) = dirs s' \<union> {}"
      by (simp_all add: process_page_def page_try_def Let_def)
    then show ?thesis by blast
  next
    case out: (Inr out)
    show ?thesis
    proof (cases "extract_critical out = [] \<or> length (trim (extract_critical out)) = 0")
      case True
      with Inr out e have "fst (process_page w cfg ci pg s) = fst (process_page w cfg ci pg s')"
        "files (snd (process_page w cfg ci pg s)) = files s ++ Map.empty"
        "files (snd (process_page w cfg ci pg s')) = files s' ++ Map.empty"
        "dirs (snd (process_page w cfg ci pg s)) = dirs s \<union> {}"
        "dirs (snd (process_page w cfg ci pg s')) = dirs s' \<union> {}"
        by (simp_all add: process_page_def page_try_def Let_def)
      then show ?thesis by blast
    next
      case False
      show ?thesis
      proof (cases "mkdir w (dirname w ?p)")
        case (Some err)
        with Inr out e False
        have "fst (process_page w cfg ci pg s) = fst (process_page w cfg ci pg s')"
          "files (snd (process_page w cfg ci pg s)) = files s ++ Map.empty"
          "files (snd (process_page w cfg ci pg s')) = files s' ++ Map.empty"
          "dirs (snd (process_page w cfg ci pg s)) = dirs s \<union> {}"
          "dirs (snd (process_page w cfg ci pg s')) = dirs s' \<union> {}"
          by (simp_all add: process_page_def page_try_def Let_def)
        then show ?thesis by blast
      next
        case None
        show ?thesis
        proof (cases "writeFile w ?p (trim (extract_critical out))")
          case (Some err)
          with Inr out e False None
          have "fst (process_page w cfg ci pg s) = fst (process_page w cfg ci pg s')"
            "files (snd (process_page w cfg ci pg s)) = files s ++ Map.empty"
            "files (snd (process_page w cfg ci pg s')) = files s' ++ Map.empty"
            "dirs (snd (process_page w cfg ci pg s)) = dirs s \<union> {dirname w ?p}"
            "dirs (snd (process_page w cfg ci pg s')) = dirs s' \<union> {dirname w ?p}"
            by (simp_all add: process_page_def page_try_def Let_def)
          then show ?thesis by blast
        next
          case wr: None
          with Inr out e False None
          have "fst (process_page w cfg ci pg s) = fst (process_page w cfg ci pg s')"
            "files (snd (process_page w cfg ci pg s)) =
               files s ++ [?p \<mapsto> trim (extract_critical out)]"
            "files (snd (process_page w cfg ci pg s')) =
               files s' ++ [?p \<mapsto> trim (extract_critical out)]"
            "dirs (snd (process_page w cfg ci pg s)) = dirs s \<union> {dirname w ?p}"
            "dirs (snd (process_page w cfg ci pg s')) = dirs s' \<union> {dirname w ?p}"
            by (simp_all add: process_page_def page_try_def Let_def)
          then show ?thesis by blast
        qed
      qed
    qed
  qed
qed

lemma page_loop_apart:
  "set pgs \<subseteq> set (pages cfg) \<Longrightarrow> same_apart w cfg st (snd (page_loop w cfg ci pgs rs st))"
proof (induction pgs arbitrary: rs st)
  case Nil
  show ?case by (simp add: same_apart_refl)
next
  case (Cons pg pgs)
  obtain r st1 where step: "process_page w cfg ci pg st = (r, st1)"
    by (cases "process_page w cfg ci pg st")
  from Cons.prems have pg: "pg \<in> set (pages cfg)" and rest: "set pgs \<subseteq> set (pages cfg)"
    by simp_all
  have "same_apart w cfg st st1"
    using process_page_apart [OF pg, where w = w and ci = ci and st = st] step by simp
  moreover have "same_apart w cfg st1 (snd (page_loop w cfg ci pgs (rs @ [r]) st1))"
    by (rule Cons.IH [OF rest])
  ultimately have "same_apart w cfg st (snd (page_loop w cfg ci pgs (rs @ [r]) st1))"
    by (rule same_apart_trans)
  with step show ?case by simp
qed

lemma page_loop_cong:
  assumes ra: "reads_apart w cfg"
  shows "set pgs \<subseteq> set (pages cfg) \<Longrightarrow> same_apart w cfg s s' \<Longrightarrow>
         getBuiltCssInfo w cfg s = Inr ci \<Longrightarrow>
         fst (page_loop w cfg ci pgs rs s) = fst (page_loop w cfg ci pgs rs s') \<and>
         (\<exists>W D. files (snd (page_loop w cfg ci pgs rs s)) = files s ++ W \<and>
                files (snd (page_loop w cfg ci pgs rs s')) = files s' ++ W \<and>
                dirs (snd (page_loop w cfg ci pgs rs s)) = dirs s \<union> D \<and>
                dirs (snd (page_loop w cfg ci pgs rs s')) = dirs s' \<union> D)"
proof (induction pgs arbitrary: rs s s')
  case Nil
  have "files s = files s ++ Map.empty" "files s' = files s' ++ Map.empty"
    "dirs s = dirs s \<union> {}" "dirs s' = dirs s' \<union> {}"
    by simp_all
  then show ?case by (simp del: map_add_empty Un_empty_right) blast
next
  case (Cons pg pgs)
  from Cons.prems have pg: "pg \<in> set (pages cfg)" and rest: "set pgs \<subseteq> set (pages cfg)"
    by simp_all
  obtain r s1 where step: "process_page w cfg ci pg s = (r, s1)"
    by (cases "process_page w cfg ci pg s")
  obtain r' s1' where step': "process_page w cfg ci pg s' = (r', s1')"
    by (cases "process_page w cfg ci pg s'")
  from process_page_cong [OF ra Cons.prems(2) Cons.prems(3) pg] step step'
  obtain W1 D1 where rr: "r' = r"
    and f1: "files s1 = files s ++ W1" "files s1' = files s' ++ W1"
    and d1: "dirs s1 = dirs s \<union> D1" "dirs s1' = dirs s' \<union> D1"
    by auto
  have a: "same_apart w cfg s s1"
    using process_page_apart [OF pg, where w = w and ci = ci and st = s] step by simp
  have a': "same_apart w cfg s' s1'"
    using process_page_apart [OF pg, where w = w and ci = ci and st = s'] step' by simp
  have ap1: "same_apart w cfg s1 s1'"
    using a a' Cons.prems(2) same_apart_sym same_apart_trans by blast
  have ci1: "getBuiltCssInfo w cfg s1 = Inr ci"
    using located_apart [OF ra a] Cons.prems(3) by simp
  from Cons.IH [OF rest ap1 ci1, of "rs @ [r]"]
  obtain W2 D2 where
    res: "fst (page_loop w cfg ci pgs (rs @ [r]) s1) = fst (page_loop w cfg ci pgs (rs @ [r]) s1')"
    and f2: "files (snd (page_loop w cfg ci pgs (rs @ [r]) s1)) = files s1 ++ W2"
      "files (snd (page_loop w cfg ci pgs (rs @ [r]) s1')) = files s1' ++ W2"
    and d2: "dirs (snd (page_loop w cfg ci pgs (rs @ [r]) s1)) = dirs s1 \<union> D2"
      "dirs (snd (page_loop w cfg ci pgs (rs @ [r]) s1')) = dirs s1' \<union> D2"
    by blast
  have "fst (page_loop w cfg ci (pg # pgs) rs s) = fst (page_loop w cfg ci (pg # pgs) rs s')"
    using step step' rr res by simp
  moreover have "files (snd (page_loop w cfg ci (pg # pgs) rs s)) = files s ++ (W1 ++ W2)"
    using step f1(1) f2(1) by simp
  moreover have "files (snd (page_loop w cfg ci (pg # pgs) rs s')) = files s' ++ (W1 ++ W2)"
    using step' rr f1(2) f2(2) by simp
  moreover have "dirs (snd (page_loop w cfg ci (pg # pgs) rs s)) = dirs s \<union> (D1 \<union> D2)"
    using step d1(1) d2(1) by (simp add: Un_assoc)
  moreover have "dirs (snd (page_loop w cfg ci (pg # pgs) rs s')) = dirs s' \<union> (D1 \<union> D2)"
    using step' rr d1(2) d2(2) by (simp add: Un_assoc)
  ultimately show ?case by blast
qed

lemma run_located:
  assumes "mkdir w (outputDir cfg) = None"
    and "getBuiltCssInfo w cfg (st\<lparr>dirs := insert (outputDir cfg) (dirs st)\<rparr>) = Inr ci"
  shows "fst (generateCriticalCss w cfg st) =
           Inr \<lparr>results = fst (page_loop w cfg ci (pages cfg) []
                              (st\<lparr>dirs := insert (outputDir cfg) (dirs st)\<rparr>)),
                successful = length (filter (\<lambda>r. success r)
                  (fst (page_loop w cfg ci (pages cfg) []
                         (st\<lparr>dirs := insert (outputDir cfg) (dirs st)\<rparr>)))),
                failed = length (filter (\<lambda>r. \<not> success r)
                  (fst (page_loop w cfg ci (pages cfg) []
                         (st\<lparr>dirs := insert (outputDir cfg) (dirs st)\<rparr>))))\<rparr>"
    and "snd (generateCriticalCss w cfg st) =
           snd (page_loop w cfg ci (pages cfg) [] (st\<lparr>dirs := insert (outputDir cfg) (dirs st)\<rparr>))"
  using assms by (simp_all add: generateCriticalCss_def Let_def split: prod.splits)

lemma map_add_twice: "(m ++ n) ++ n = m ++ n"
  by (rule ext) (simp add: map_add_def split: option.splits)

text \<open>
  Two runs from stores that differ only in what a run may make return the same, summary
  or error, and add the same files and directories.
\<close>

lemma run_cong:
  assumes ra: "reads_apart w cfg" and ap: "same_apart w cfg s s'"
  shows "fst (generateCriticalCss w cfg s) = fst (generateCriticalCss w cfg s') \<and>
         (\<exists>W D. files (snd (generateCriticalCss w cfg s)) = files s ++ W \<and>
                files (snd (generateCriticalCss w cfg s')) = files s' ++ W \<and>
                dirs (snd (generateCriticalCss w cfg s)) = dirs s \<union> D \<and>
                dirs (snd (generateCriticalCss w cfg s')) = dirs s' \<union> D)"
proof (cases "mkdir w (outputDir cfg)")
  case (Some e)
  then have "fst (generateCriticalCss w cfg s) = fst (generateCriticalCss w cfg s')"
    "files (snd (generateCriticalCss w cfg s)) = files s ++ Map.empty"
    "files (snd (generateCriticalCss w cfg s')) = files s' ++ Map.empty"
    "dirs (snd (generateCriticalCss w cfg s)) = dirs s \<union> {}"
    "dirs (snd (generateCriticalCss w cfg s')) = dirs s' \<union> {}"
    by (simp_all add: generateCriticalCss_def)
  then show ?thesis by blast
next
  case None
  let ?s0 = "s\<lparr>dirs := insert (outputDir cfg) (dirs s)\<rparr>"
  let ?s0' = "s'\<lparr>dirs := insert (outputDir cfg) (dirs s')\<rparr>"
  have "same_apart w cfg s ?s0" "same_apart w cfg s' ?s0'"
    by (rule same_apart_outputDir)+
  with ap have ap0: "same_apart w cfg ?s0 ?s0'"
    using same_apart_sym same_apart_trans by blast
  have loc: "getBuiltCssInfo w cfg ?s0' = getBuiltCssInfo w cfg ?s0"
    using located_apart [OF ra ap0] by simp
  show ?thesis
  proof (cases "getBuiltCssInfo w cfg ?s0")
    case (Inl e)
    with None loc have "fst (generateCriticalCss w cfg s) = fst (generateCriticalCss w cfg s')"
      "files (snd (generateCriticalCss w cfg s)) = files s ++ Map.empty"
      "files (snd (generateCriticalCss w cfg s')) = files s' ++ Map.empty"
      "dirs (snd (generateCriticalCss w cfg s)) = dirs s \<union> {outputDir cfg}"
      "dirs (snd (generateCriticalCss w cfg s')) = dirs s' \<union> {outputDir cfg}"
      by (simp_all add: generateCriticalCss_def Let_def)
    then show ?thesis by blast
  next
    case (Inr ci)
    from page_loop_cong [OF ra subset_refl ap0 Inr, of "[]"]
    obtain W D where
      res: "fst (page_loop w cfg ci (pages cfg) [] ?s0) = fst (page_loop w cfg ci (pages cfg) [] ?s0')"
      and f: "files (snd (page_loop w cfg ci (pages cfg) [] ?s0)) = files ?s0 ++ W"
        "files (snd (page_loop w cfg ci (pages cfg) [] ?s0')) = files ?s0' ++ W"
      and d: "dirs (snd (page_loop w cfg ci (pages cfg) [] ?s0)) = dirs ?s0 \<union> D"
        "dirs (snd (page_loop w cfg ci (pages cfg) [] ?s0')) = dirs ?s0' \<union> D"
      by blast
    have Inr': "getBuiltCssInfo w cfg ?s0' = Inr ci" using loc Inr by simp
    note r = run_located [OF None Inr] and r' = run_located [OF None Inr']
    have "fst (generateCriticalCss w cfg s) = fst (generateCriticalCss w cfg s')"
      unfolding r(1) r'(1) res by (rule refl)
    moreover have "files (snd (generateCriticalCss w cfg s)) = files s ++ W"
      unfolding r(2) f(1) by simp
    moreover have "files (snd (generateCriticalCss w cfg s')) = files s' ++ W"
      unfolding r'(2) f(2) by simp
    moreover have "dirs (snd (generateCriticalCss w cfg s)) = dirs s \<union> (insert (outputDir cfg) D)"
      unfolding r(2) d(1) by simp
    moreover have "dirs (snd (generateCriticalCss w cfg s')) = dirs s' \<union> (insert (outputDir cfg) D)"
      unfolding r'(2) d(2) by simp
    ultimately show ?thesis by blast
  qed
qed

lemma run_apart: "same_apart w cfg st (snd (generateCriticalCss w cfg st))"
proof (cases "mkdir w (outputDir cfg)")
  case (Some e)
  then show ?thesis by (simp add: generateCriticalCss_def same_apart_refl)
next
  case None
  let ?s0 = "st\<lparr>dirs := insert (outputDir cfg) (dirs st)\<rparr>"
  have a: "same_apart w cfg st ?s0" by (rule same_apart_outputDir)
  show ?thesis
  proof (cases "getBuiltCssInfo w cfg ?s0")
    case (Inl e)
    with None a show ?thesis by (simp add: generateCriticalCss_def Let_def)
  next
    case (Inr ci)
    have "same_apart w cfg ?s0 (snd (page_loop w cfg ci (pages cfg) [] ?s0))"
      by (rule page_loop_apart) simp
    with a have "same_apart w cfg st (snd (page_loop w cfg ci (pages cfg) [] ?s0))"
      by (rule same_apart_trans)
    then show ?thesis
      unfolding run_located(2) [OF None Inr] .
  qed
qed

text \<open>
  C8, as amended. When the run does not read what it writes (\<open>reads_apart\<close>), the same
  configuration and the same answers from outside give the same again: a second run, on
  the disk as the first run left it, returns what the first run returned and leaves every
  file and directory as the first run left it; and so does a run from any disk that
  differs from the first one only in those files and directories.
\<close>

theorem rerun_is_idempotent:
  assumes "reads_apart w cfg"
  shows "fst (generateCriticalCss w cfg (snd (generateCriticalCss w cfg st))) =
           fst (generateCriticalCss w cfg st) \<and>
         files (snd (generateCriticalCss w cfg (snd (generateCriticalCss w cfg st)))) =
           files (snd (generateCriticalCss w cfg st)) \<and>
         dirs (snd (generateCriticalCss w cfg (snd (generateCriticalCss w cfg st)))) =
           dirs (snd (generateCriticalCss w cfg st)) \<and>
         (\<forall>st'. same_apart w cfg st st' \<longrightarrow>
            fst (generateCriticalCss w cfg st') = fst (generateCriticalCss w cfg st))"
proof -
  let ?st1 = "snd (generateCriticalCss w cfg st)"
  have ap: "same_apart w cfg st ?st1" by (rule run_apart)
  from run_cong [OF assms ap] obtain W D where
    res: "fst (generateCriticalCss w cfg st) = fst (generateCriticalCss w cfg ?st1)"
    and f: "files ?st1 = files st ++ W" "files (snd (generateCriticalCss w cfg ?st1)) = files ?st1 ++ W"
    and d: "dirs ?st1 = dirs st \<union> D" "dirs (snd (generateCriticalCss w cfg ?st1)) = dirs ?st1 \<union> D"
    by blast
  have 1: "fst (generateCriticalCss w cfg ?st1) = fst (generateCriticalCss w cfg st)"
    using res by simp
  have "files (snd (generateCriticalCss w cfg ?st1)) = (files st ++ W) ++ W"
    using f by simp
  then have 2: "files (snd (generateCriticalCss w cfg ?st1)) = files ?st1"
    using f(1) by (simp only: map_add_twice)
  have 3: "dirs (snd (generateCriticalCss w cfg ?st1)) = dirs ?st1"
    using d by auto
  have 4: "\<forall>st'. same_apart w cfg st st' \<longrightarrow>
      fst (generateCriticalCss w cfg st') = fst (generateCriticalCss w cfg st)"
    using run_cong [OF assms] by simp
  from 1 2 3 4 show ?thesis by simp
qed

text \<open>
  A world whose file system answers from the store, for a site with two pages. The
  manifest is read from the disk; the assets directory lists, in alphabetical order,
  those of three names that the disk holds; the engine loads the stylesheet that the
  document links to from the disk and inlines, in a style block marked with its href,
  those of its rules that match an element of the page.
\<close>

definition linked_href :: "string \<Rightarrow> string" where
  \<open>linked_href h =
     (case split_first ''<link rel="stylesheet" href="'' h of
        None \<Rightarrow> []
      | Some (pre, post) \<Rightarrow> takeWhile (\<lambda>c. c \<noteq> dq) post)\<close>

definition matching_rules :: "string \<Rightarrow> string \<Rightarrow> string" where
  "matching_rules sheet h =
     (if includes_str sheet ''h1{color:blue}'' \<and> includes_str h ''<h1>''
      then ''h1{color:blue}'' else []) @
     (if includes_str sheet ''p{margin:0}'' \<and> includes_str h ''<p>''
      then ''p{margin:0}'' else [])"

definition disk_engine :: "store \<Rightarrow> string \<Rightarrow> string \<Rightarrow> unit \<Rightarrow> string \<Rightarrow> js_error + string" where
  \<open>disk_engine s p pp opts h =
     (case files s (p @ linked_href h) of
        None \<Rightarrow> Inr h
      | Some sheet \<Rightarrow>
          Inr (''<style data-href="'' @ linked_href h @ ''">'' @ matching_rules sheet h @
               ''</style>'' @ h))\<close>

definition asset_names :: "string list" where
  "asset_names = [''about_critical.min.css'', ''home_critical.min.css'', ''style.css'']"

definition home_html :: string where
  "home_html = ''<html><head></head><body><h1>Home</h1><p>Hello</p></body></html>''"

definition about_html :: string where
  "about_html = ''<html><head></head><body><p>About</p></body></html>''"

definition disk_world :: "unit world" where
  "disk_world =
     demo_world
       \<lparr>readFile := (\<lambda>s p. case files s p of Some c \<Rightarrow> Inr c | None \<Rightarrow> Inl (Error ''ENOENT'')),
        readdir := (\<lambda>s d. if d = ''/site/web/dist/assets''
                           then Inr (filter (\<lambda>n. files s (d @ ''/'' @ n) \<noteq> None) asset_names)
                           else Inl (Error ''ENOENT'')),
        fetch := (\<lambda>u. if u = ''https://site.test/''
                      then Inr \<lparr>status = 200, statusText = ''OK'', body_text = Inr home_html\<rparr>
                      else if u = ''https://site.test/about''
                      then Inr \<lparr>status = 200, statusText = ''OK'', body_text = Inr about_html\<rparr>
                      else Inr \<lparr>status = 404, statusText = ''Not Found'', body_text = Inr ''gone''\<rparr>),
        beasties_process := disk_engine\<rparr>"

text \<open>The disk after the build: one stylesheet in the assets directory, no manifest.\<close>

definition built_disk :: store where
  "built_disk =
     \<lparr>dirs = {''/site/web/dist/assets''},
      files = [''/site/web/dist/assets/style.css'' \<mapsto> ''h1{color:blue}p{margin:0}''],
      requests = []\<rparr>"

text \<open>
  Two configurations for it: one with the output directory beside the assets directory
  (the default), one with the critical CSS written into the assets directory.
\<close>

definition site_config :: "unit config" where
  "site_config =
     demo_config\<lparr>pages := [\<lparr>uri = ''/'', template = ''home''\<rparr>,
                           \<lparr>uri = ''/about'', template = ''about''\<rparr>]\<rparr>"

definition assets_config :: "unit config" where
  "assets_config = site_config\<lparr>outputDir := ''/site/web/dist/assets''\<rparr>"

lemma site_output_files:
  "output_files disk_world site_config =
     {''/site/web/dist/criticalcss/home_critical.min.css'',
      ''/site/web/dist/criticalcss/about_critical.min.css''}"
  by (simp add: output_files_def site_config_def demo_config_def disk_world_def demo_world_def)

lemma site_files_apart:
  assumes "same_apart disk_world site_config s s'"
  shows "files s ''/site/web/dist/.vite/manifest.json'' = files s' ''/site/web/dist/.vite/manifest.json''"
    and "files s ''/site/web/dist/assets/app.css'' = files s' ''/site/web/dist/assets/app.css''"
    and "files s ''/site/web/dist/assets/about_critical.min.css'' =
         files s' ''/site/web/dist/assets/about_critical.min.css''"
    and "files s ''/site/web/dist/assets/home_critical.min.css'' =
         files s' ''/site/web/dist/assets/home_critical.min.css''"
    and "files s ''/site/web/dist/assets/style.css'' = files s' ''/site/web/dist/assets/style.css''"
  using assms unfolding same_apart_def site_output_files by simp_all

text \<open>What the locator can find in this world, and what the site serves.\<close>

lemma site_manifest:
  assumes "manifest_try disk_world site_config s = Inr (Some ci)"
  shows "href ci = ''/dist/assets/app.css''"
proof -
  have c: "appEntry site_config = ''src/js/app.ts''"
    by (simp add: site_config_def demo_config_def)
  have j: "JSON_parse disk_world t =
      (if t = demo_manifest_text
       then Inr [''src/js/app.ts'' \<mapsto> \<lparr>css = Some [''assets/app.css'']\<rparr>]
       else Inl (Error ''Unexpected token''))" for t
    by (simp add: disk_world_def demo_world_def)
  from assms show ?thesis
    unfolding manifest_try_def Let_def j c
    by (auto split: sum.splits if_splits)
qed

lemma site_fallback:
  assumes "assets_fallback disk_world site_config s = Inr ci"
  shows "\<exists>n\<in>set asset_names. href ci = ''/dist/assets/'' @ n"
proof -
  let ?ls = "filter (\<lambda>n. files s (''/site/web/dist/assets'' @ ''/'' @ n) \<noteq> None) asset_names"
  have rd: "readdir disk_world s (resolve disk_world (projectRoot site_config) ''web/dist/assets'') =
      Inr ?ls"
    by (simp add: disk_world_def demo_world_def site_config_def demo_config_def)
  from assms obtain f fs where
    e: "filter (\<lambda>f. endsWith f ''.css'') ?ls = f # fs" and h: "href ci = ''/dist/'' @ ''assets/'' @ f"
    unfolding assets_fallback_def Let_def rd by (auto split: list.splits)
  have "f \<in> set (f # fs)" by simp
  then have "f \<in> set (filter (\<lambda>f. endsWith f ''.css'') ?ls)" by (simp only: e)
  then have "f \<in> set asset_names" by simp
  with h show ?thesis by auto
qed

lemma site_located:
  assumes "getBuiltCssInfo disk_world site_config s = Inr ci"
  shows "href ci \<in> {''/dist/assets/app.css'', ''/dist/assets/about_critical.min.css'',
                     ''/dist/assets/home_critical.min.css'', ''/dist/assets/style.css''}"
proof (cases "\<exists>info. manifest_try disk_world site_config s = Inr (Some info)")
  case True
  then obtain info where m: "manifest_try disk_world site_config s = Inr (Some info)" ..
  with assms have "ci = info" by (simp add: getBuiltCssInfo_def)
  with site_manifest [OF m] show ?thesis by simp
next
  case False
  with assms have "assets_fallback disk_world site_config s = Inr ci"
    by (auto simp: getBuiltCssInfo_def split: sum.splits option.splits)
  from site_fallback [OF this] show ?thesis
    by (auto simp: asset_names_def)
qed

lemma site_fetched:
  assumes "pg \<in> set (pages site_config)"
    and "fetchHtml disk_world (baseUrl site_config @ uri pg) = Inr html"
  shows "html = home_html \<or> html = about_html"
  using assms
  by (auto simp: fetchHtml_def disk_world_def demo_world_def site_config_def demo_config_def ok_def)

lemma site_linked:
  "list_all (\<lambda>h. linked_href (sanitize h home_html) = h \<and> linked_href (sanitize h about_html) = h)
     [''/dist/assets/app.css'', ''/dist/assets/about_critical.min.css'',
      ''/dist/assets/home_critical.min.css'', ''/dist/assets/style.css'']"
  by code_simp

text \<open>
  With the output directory beside the assets directory, this world does not read what
  the run writes, although all it reads it reads from the disk.
\<close>

lemma site_reads_apart: "reads_apart disk_world site_config"
  unfolding reads_apart_def
proof (intro allI impI conjI)
  fix s s'
  assume ap: "same_apart disk_world site_config s s'"
  note f = site_files_apart [OF ap]
  show "readFile disk_world s (resolve disk_world (projectRoot site_config) (manifestPath site_config)) =
      readFile disk_world s' (resolve disk_world (projectRoot site_config) (manifestPath site_config))"
    using f(1) by (simp add: disk_world_def demo_world_def site_config_def demo_config_def)
  show "readdir disk_world s (resolve disk_world (projectRoot site_config) ''web/dist/assets'') =
      readdir disk_world s' (resolve disk_world (projectRoot site_config) ''web/dist/assets'')"
    using f(3,4,5)
    by (simp add: disk_world_def demo_world_def site_config_def demo_config_def asset_names_def)
  fix ci pg html
  assume a: "getBuiltCssInfo disk_world site_config s = Inr ci \<and> pg \<in> set (pages site_config) \<and>
      fetchHtml disk_world (baseUrl site_config @ uri pg) = Inr html"
  let ?P = "resolve disk_world (projectRoot site_config) (publicDir site_config)"
  have P: "?P = ''/site/web''"
    by (simp add: disk_world_def demo_world_def site_config_def demo_config_def)
  from site_located [OF a [THEN conjunct1]]
  have h: "href ci \<in> {''/dist/assets/app.css'', ''/dist/assets/about_critical.min.css'',
                     ''/dist/assets/home_critical.min.css'', ''/dist/assets/style.css''}" .
  from site_fetched [OF a [THEN conjunct2, THEN conjunct1] a [THEN conjunct2, THEN conjunct2]]
  have d: "html = home_html \<or> html = about_html" .
  have l: "linked_href (sanitize (href ci) html) = href ci"
    using h d site_linked by auto
  have "files s (''/site/web'' @ href ci) = files s' (''/site/web'' @ href ci)"
    using h f(2,3,4,5) by auto
  then have "disk_engine s ?P (publicPath site_config) (beasties site_config) (sanitize (href ci) html) =
      disk_engine s' ?P (publicPath site_config) (beasties site_config) (sanitize (href ci) html)"
    unfolding disk_engine_def l P by simp
  then show "beasties_process disk_world s ?P (publicPath site_config) (beasties site_config)
        (sanitize (href ci) html) =
      beasties_process disk_world s' ?P (publicPath site_config) (beasties site_config)
        (sanitize (href ci) html)"
    by (simp add: disk_world_def)
qed

definition site_summary :: run_summary where
  "site_summary =
     \<lparr>results =
        [\<lparr>page = \<lparr>uri = ''/'', template = ''home''\<rparr>, success = True,
          size_kb = Some ''0.02'', error = None\<rparr>,
         \<lparr>page = \<lparr>uri = ''/about'', template = ''about''\<rparr>, success = True,
          size_kb = Some ''0.01'', error = None\<rparr>],
      successful = 2, failed = 0\<rparr>"

lemma site_run: "fst (generateCriticalCss disk_world site_config built_disk) = Inr site_summary"
  by code_simp

text \<open>The built disk with a file of an earlier run still in the output directory.\<close>

definition stale_disk :: store where
  "stale_disk =
     built_disk\<lparr>files := (files built_disk)
       (''/site/web/dist/criticalcss/home_critical.min.css'' \<mapsto> ''h1{color:red}'')\<rparr>"

lemma stale_apart: "same_apart disk_world site_config built_disk stale_disk"
  unfolding same_apart_def site_output_files by (simp add: stale_disk_def)

theorem rerun_is_idempotent_witness:
  "reads_apart disk_world site_config \<and>
   fst (generateCriticalCss disk_world site_config built_disk) = Inr site_summary \<and>
   fst (generateCriticalCss disk_world site_config
          (snd (generateCriticalCss disk_world site_config built_disk))) = Inr site_summary \<and>
   files (snd (generateCriticalCss disk_world site_config
                 (snd (generateCriticalCss disk_world site_config built_disk)))) =
     files (snd (generateCriticalCss disk_world site_config built_disk)) \<and>
   same_apart disk_world site_config built_disk stale_disk \<and>
   fst (generateCriticalCss disk_world site_config stale_disk) = Inr site_summary"
  using rerun_is_idempotent [OF site_reads_apart, of built_disk] site_reads_apart site_run
    stale_apart
  by simp

text \<open>Two runs, one after the other, with the critical CSS written into the assets directory.\<close>

lemma two_runs_in_assets:
  "case generateCriticalCss disk_world assets_config built_disk of
     (r1, s1) \<Rightarrow>
       r1 = Inr site_summary \<and>
       files s1 ''/site/web/dist/assets/home_critical.min.css'' = Some ''h1{color:blue}p{margin:0}'' \<and>
       getBuiltCssInfo disk_world assets_config s1 =
         Inr \<lparr>absolutePath = ''/site/web/dist/assets/about_critical.min.css'',
              href = ''/dist/assets/about_critical.min.css''\<rparr> \<and>
       (case generateCriticalCss disk_world assets_config s1 of
          (r2, s2) \<Rightarrow>
            r2 \<noteq> Inr site_summary \<and>
            files s2 ''/site/web/dist/assets/home_critical.min.css'' = Some ''p{margin:0}'')"
  by code_simp

text \<open>Here the run does read what it writes.\<close>

lemma assets_reads_not_apart: "\<not> reads_apart disk_world assets_config"
proof
  assume ra: "reads_apart disk_world assets_config"
  let ?r1 = "generateCriticalCss disk_world assets_config built_disk"
  have "fst ?r1 = fst (generateCriticalCss disk_world assets_config (snd ?r1))"
    using run_cong [OF ra run_apart [of disk_world assets_config built_disk]] by blast
  moreover have "fst ?r1 = Inr site_summary"
    "fst (generateCriticalCss disk_world assets_config (snd ?r1)) \<noteq> Inr site_summary"
    using two_runs_in_assets by (simp_all add: case_prod_beta)
  ultimately show False by simp
qed

text \<open>
  C8 as stated fails where the run reads what it wrote. With the critical CSS written
  into the assets directory and no manifest, the first run locates \<open>style.css\<close>, the
  only stylesheet there; the second run finds the files of the first run in the listing
  and locates \<open>about_critical.min.css\<close>, so the engine is handed another stylesheet.
  The configuration, the site, the stylesheet of the build and the engine are the same in
  both runs; the file for the home page and its size in the summary are not.
\<close>

theorem rerun_in_assets_counterexample:
  "getBuiltCssInfo disk_world assets_config built_disk =
     Inr \<lparr>absolutePath = ''/site/web/dist/assets/style.css'', href = ''/dist/assets/style.css''\<rparr> \<and>
   getBuiltCssInfo disk_world assets_config
     (snd (generateCriticalCss disk_world assets_config built_disk)) =
     Inr \<lparr>absolutePath = ''/site/web/dist/assets/about_critical.min.css'',
          href = ''/dist/assets/about_critical.min.css''\<rparr> \<and>
   fst (generateCriticalCss disk_world assets_config built_disk) = Inr site_summary \<and>
   fst (generateCriticalCss disk_world assets_config
          (snd (generateCriticalCss disk_world assets_config built_disk))) \<noteq> Inr site_summary \<and>
   files (snd (generateCriticalCss disk_world assets_config built_disk))
     ''/site/web/dist/assets/home_critical.min.css'' = Some ''h1{color:blue}p{margin:0}'' \<and>
   files (snd (generateCriticalCss disk_world assets_config
                 (snd (generateCriticalCss disk_world assets_config built_disk))))
     ''/site/web/dist/assets/home_critical.min.css'' = Some ''p{margin:0}''"
proof -
  have "getBuiltCssInfo disk_world assets_config built_disk =
     Inr \<lparr>absolutePath = ''/site/web/dist/assets/style.css'', href = ''/dist/assets/style.css''\<rparr>"
    by code_simp
  with two_runs_in_assets show ?thesis
    by (simp add: case_prod_beta)
qed

section \<open>What the regular expressions match\<close>

text \<open>
  The matcher is related to a description of the matched texts that does not mention
  backtracking: literal characters up to ASCII case, attribute text without \<open>>\<close>, and
  the shortest content before a closing tag.
\<close>

lemma canonicalize_gt: "canonicalize x = CHR ''>'' \<longleftrightarrow> x = CHR ''>''"
  by (auto simp: canonicalize_def split: option.splits if_splits)

lemma same_char_gt: "same_char True (CHR ''>'') x \<longleftrightarrow> x = CHR ''>''"
  by (simp add: same_char_def canonicalize_gt) (simp add: canonicalize_def)

fun atoms_prefix :: "cls list \<Rightarrow> string \<Rightarrow> bool" where
  "atoms_prefix [] s = True"
| "atoms_prefix (c # cs) [] = False"
| "atoms_prefix (c # cs) (x # xs) = (cls_match True c x \<and> atoms_prefix cs xs)"

definition ci_prefix :: "string \<Rightarrow> string \<Rightarrow> bool" where
  "ci_prefix w s = atoms_prefix (map Ch w) s"

lemma atoms_prefix_length: "atoms_prefix cs s \<Longrightarrow> length cs \<le> length s"
  by (induction cs s rule: atoms_prefix.induct) auto

lemma atoms_prefix_append:
  "atoms_prefix cs s \<Longrightarrow> atoms_prefix cs (s @ t)"
  by (induction cs s rule: atoms_prefix.induct) auto

lemma atoms_prefix_take:
  "atoms_prefix cs s \<longleftrightarrow> length cs \<le> length s \<and> atoms_prefix cs (take (length cs) s)"
  by (induction cs s rule: atoms_prefix.induct) auto

lemma bt_atoms:
  "bt True (map Atom cs @ r) s =
     (if atoms_prefix cs s
      then map_option (\<lambda>((m, caps), rest). ((take (length cs) s @ m, caps), rest))
             (bt True r (drop (length cs) s))
      else None)"
proof (induction cs s rule: atoms_prefix.induct)
  case (1 s)
  show ?case by (simp add: option.map_ident split_def)
next
  case (2 c cs)
  show ?case by simp
next
  case (3 c cs x xs)
  then show ?case
    by (auto simp: option.map_comp comp_def split_def)
qed

lemma greedy_star_all:
  "greedy_star P k s = Some (g, r) \<Longrightarrow> list_all P g"
  by (induction s arbitrary: g) (auto split: if_splits option.splits)

lemma greedy_star_complete:
  "list_all P g \<Longrightarrow> k u \<noteq> None \<Longrightarrow> greedy_star P k (g @ u) \<noteq> None"
proof (induction g)
  case Nil
  then show ?case by (cases u) (auto split: option.splits)
next
  case (Cons x g)
  then show ?case by (auto split: option.splits)
qed

lemma lazy_star_first:
  "lazy_star P k s = Some (g, r) \<Longrightarrow> i < length g \<Longrightarrow> k (drop i s) = None"
proof (induction s arbitrary: g i)
  case Nil
  then show ?case by auto
next
  case (Cons x xs)
  show ?case
  proof (cases "k (x # xs)")
    case None
    with Cons.prems obtain g' where g': "g = x # g'" "lazy_star P k xs = Some (g', r)"
      by (auto split: if_splits)
    show ?thesis
    proof (cases i)
      case 0
      with None show ?thesis by simp
    next
      case (Suc j)
      with Cons.prems g' have "j < length g'" by simp
      from Cons.IH [OF g'(2) this] Suc show ?thesis by simp
    qed
  next
    case (Some a)
    with Cons.prems show ?thesis by simp
  qed
qed

lemma lazy_star_any_complete:
  "k u = Some r \<Longrightarrow> lazy_star (\<lambda>x. True) k (g @ u) \<noteq> None"
proof (induction g)
  case Nil
  then show ?case by (cases u) auto
next
  case (Cons x g)
  then show ?case by (auto split: option.splits)
qed

lemma lazy_star_any_exact:
  assumes "\<And>x. P x"
  shows "k u = Some r \<Longrightarrow> (\<forall>i<length g. k (drop i (g @ u)) = None) \<Longrightarrow>
         lazy_star P k (g @ u) = Some (g, r)"
proof (induction g)
  case Nil
  then show ?case by (cases u) auto
next
  case (Cons x g)
  have "0 < length (x # g)" by simp
  with Cons.prems(2) have "k (drop 0 ((x # g) @ u)) = None" by blast
  then have 0: "k (x # g @ u) = None" by simp
  have "\<forall>i<length g. k (drop i (g @ u)) = None"
  proof (intro allI impI)
    fix i assume "i < length g"
    then have "Suc i < length (x # g)" by simp
    with Cons.prems(2) have "k (drop (Suc i) ((x # g) @ u)) = None" by blast
    then show "k (drop i (g @ u)) = None" by simp
  qed
  from Cons.IH [OF Cons.prems(1) this] 0 assms show ?case by simp
qed

lemma lazy_star_any_iff:
  assumes "\<And>x. P x"
  shows "lazy_star P k s = Some (g, r) \<longleftrightarrow>
         (\<exists>u. s = g @ u \<and> k u = Some r \<and> (\<forall>i<length g. k (drop i s) = None))"
proof
  assume l: "lazy_star P k s = Some (g, r)"
  from lazy_star_Some [OF l] obtain u where "s = g @ u" "k u = Some r" by blast
  moreover have "\<forall>i<length g. k (drop i s) = None"
    using lazy_star_first [OF l] by blast
  ultimately show "\<exists>u. s = g @ u \<and> k u = Some r \<and> (\<forall>i<length g. k (drop i s) = None)"
    by blast
next
  assume "\<exists>u. s = g @ u \<and> k u = Some r \<and> (\<forall>i<length g. k (drop i s) = None)"
  then obtain u where u: "s = g @ u" "k u = Some r" "\<forall>i<length g. k (drop i (g @ u)) = None"
    by auto
  have "lazy_star P k (g @ u) = Some (g, r)"
    by (rule lazy_star_any_exact [of P, OF assms u(2) u(3)])
  with u(1) show "lazy_star P k s = Some (g, r)" by simp
qed

lemma greedy_until:
  assumes P: "\<And>x. P x \<longleftrightarrow> x \<noteq> e" and c: "\<And>x. cls_match True c x \<longleftrightarrow> x = e"
  shows "greedy_star P (bt True (Atom c # r)) s =
     (case dropWhile (\<lambda>x. x \<noteq> e) s of
        [] \<Rightarrow> None
      | y # t \<Rightarrow>
          map_option (\<lambda>((m, caps), rest). (takeWhile (\<lambda>x. x \<noteq> e) s, (e # m, caps), rest))
            (bt True r t))"
proof (induction s)
  case Nil
  show ?case by simp
next
  case (Cons x xs)
  show ?case
  proof (cases "x = e")
    case True
    then show ?thesis
      by (simp add: P c option.map_comp comp_def split_def)
  next
    case False
    then have k: "bt True (Atom c # r) (x # xs) = None" by (simp add: c)
    have Px: "P x" using False by (simp add: P)
    have step: "greedy_star P (bt True (Atom c # r)) (x # xs) =
        (case greedy_star P (bt True (Atom c # r)) xs of
           Some (g, res) \<Rightarrow> Some (x # g, res) | None \<Rightarrow> None)"
      using Px k by (simp del: bt.simps split: option.splits)
    have rhs: "dropWhile (\<lambda>x. x \<noteq> e) (x # xs) = dropWhile (\<lambda>x. x \<noteq> e) xs"
      "takeWhile (\<lambda>x. x \<noteq> e) (x # xs) = x # takeWhile (\<lambda>x. x \<noteq> e) xs"
      using False by simp_all
    show ?thesis
    proof (cases "dropWhile (\<lambda>x. x \<noteq> e) xs")
      case Nil
      show ?thesis unfolding step Cons.IH rhs Nil by simp
    next
      case dw: (Cons y t)
      show ?thesis unfolding step Cons.IH rhs dw
        by (cases "bt True r t") (simp_all add: split_def)
    qed
  qed
qed

lemma bt_atoms_only:
  "bt True (map Atom cs) s =
     (if atoms_prefix cs s then Some ((take (length cs) s, []), drop (length cs) s) else None)"
  using bt_atoms [of cs "[]" s] by simp

lemma lit_atoms: "lit w = map Atom (map Ch w)"
  by (simp add: lit_def)

lemma cls_not_gt: "cls_match True (Not (CHR ''>'')) x \<longleftrightarrow> x \<noteq> CHR ''>''"
  by (simp add: same_char_gt)

lemma cls_ch_gt: "cls_match True (Ch (CHR ''>'')) x \<longleftrightarrow> x = CHR ''>''"
  by (simp add: same_char_gt)

text \<open>
  \<open>ci_eq w t\<close>: \<open>t\<close> is \<open>w\<close> up to ASCII case. \<open>style_block s m attrs body rest\<close>:
  \<open>s\<close> starts with the style block \<open>m\<close>, whose opening tag has the attribute text
  \<open>attrs\<close> and whose content \<open>body\<close> ends at the first closing tag, and goes on with
  \<open>rest\<close>.
\<close>

definition ci_eq :: "string \<Rightarrow> string \<Rightarrow> bool" where
  "ci_eq w t \<longleftrightarrow> length t = length w \<and> ci_prefix w t"

definition style_block :: "string \<Rightarrow> string \<Rightarrow> string \<Rightarrow> string \<Rightarrow> string \<Rightarrow> bool" where
  "style_block s m attrs body rest \<longleftrightarrow>
     (\<exists>tag close.
        s = m @ rest \<and> m = tag @ attrs @ ''>'' @ body @ close \<and>
        ci_eq ''<style'' tag \<and> CHR ''>'' \<notin> set attrs \<and> ci_eq ''</style>'' close \<and>
        (\<forall>i<length body. \<not> ci_prefix ''</style>'' (drop i (body @ close @ rest))))"

lemma until_gt:
  "CHR ''>'' \<notin> set a \<Longrightarrow> takeWhile (\<lambda>x. x \<noteq> CHR ''>'') (a @ CHR ''>'' # t) = a \<and>
     dropWhile (\<lambda>x. x \<noteq> CHR ''>'') (a @ CHR ''>'' # t) = CHR ''>'' # t"
  by (induction a) auto

lemma dropWhile_gt:
  "dropWhile (\<lambda>x. x \<noteq> CHR ''>'') s = y # t \<Longrightarrow>
     y = CHR ''>'' \<and> s = takeWhile (\<lambda>x. x \<noteq> CHR ''>'') s @ CHR ''>'' # t \<and>
     CHR ''>'' \<notin> set (takeWhile (\<lambda>x. x \<noteq> CHR ''>'') s)"
proof -
  assume d: "dropWhile (\<lambda>x. x \<noteq> CHR ''>'') s = y # t"
  have "y = CHR ''>''"
    using d hd_dropWhile [of "\<lambda>x. x \<noteq> CHR ''>''" s] by auto
  moreover have "s = takeWhile (\<lambda>x. x \<noteq> CHR ''>'') s @ y # t"
    using d takeWhile_dropWhile_id [of "\<lambda>x. x \<noteq> CHR ''>''" s] by simp
  moreover have "CHR ''>'' \<notin> set (takeWhile (\<lambda>x. x \<noteq> CHR ''>'') s)"
    by (auto dest: set_takeWhileD)
  ultimately show ?thesis by simp
qed

lemma ci_prefix_split:
  "ci_prefix w s \<longleftrightarrow> (\<exists>t u. s = t @ u \<and> ci_eq w t)"
proof
  assume p: "ci_prefix w s"
  then have l: "length w \<le> length s"
    using atoms_prefix_length [of "map Ch w" s] by (simp add: ci_prefix_def)
  have "ci_prefix w (take (length w) s)"
    using p atoms_prefix_take [of "map Ch w" s] by (simp add: ci_prefix_def)
  with l have "ci_eq w (take (length w) s)" by (simp add: ci_eq_def)
  moreover have "s = take (length w) s @ drop (length w) s" by simp
  ultimately show "\<exists>t u. s = t @ u \<and> ci_eq w t"
    by blast
next
  assume "\<exists>t u. s = t @ u \<and> ci_eq w t"
  then show "ci_prefix w s"
    by (auto simp: ci_eq_def ci_prefix_def intro: atoms_prefix_append)
qed

lemma ci_eq_take:
  "ci_eq w t \<Longrightarrow> take (length w) (t @ u) = t \<and> drop (length w) (t @ u) = u"
  by (simp add: ci_eq_def)

lemma bt_closing:
  "bt True (CapLazy Any # lit w) t = Some ((m, caps), rest) \<longleftrightarrow>
     (\<exists>body close. t = body @ close @ rest \<and> m = body @ close \<and> caps = [body] \<and>
        ci_eq w close \<and> (\<forall>i<length body. \<not> ci_prefix w (drop i t)))"
proof -
  have k: "bt True (lit w) u = (if ci_prefix w u then Some ((take (length w) u, []), drop (length w) u) else None)" for u
    using bt_atoms_only [of "map Ch w" u] by (simp only: lit_atoms ci_prefix_def length_map)
  have li: "lazy_star (cls_match True Any) (bt True (lit w)) t = Some (g, r) \<longleftrightarrow>
      (\<exists>u. t = g @ u \<and> bt True (lit w) u = Some r \<and>
           (\<forall>i<length g. bt True (lit w) (drop i t) = None))" for g r
    by (rule lazy_star_any_iff) simp
  show ?thesis
  proof
    assume "bt True (CapLazy Any # lit w) t = Some ((m, caps), rest)"
    then obtain g m' caps' where
      l: "lazy_star (cls_match True Any) (bt True (lit w)) t = Some (g, (m', caps'), rest)"
      and m: "m = g @ m'" and c: "caps = g # caps'"
      by auto
    from li [THEN iffD1, OF l] obtain u where
      u: "t = g @ u" "bt True (lit w) u = Some ((m', caps'), rest)"
      "\<forall>i<length g. bt True (lit w) (drop i t) = None"
      by blast
    from u(2) have p: "ci_prefix w u" and m': "m' = take (length w) u" and c': "caps' = []"
      and r: "rest = drop (length w) u"
      by (auto simp: k split: if_splits)
    from p have "length w \<le> length u"
      using atoms_prefix_length [of "map Ch w" u] by (simp add: ci_prefix_def)
    with p m' have e: "ci_eq w m'"
      using atoms_prefix_take [of "map Ch w" u] by (simp add: ci_eq_def ci_prefix_def)
    have "t = g @ m' @ rest" using u(1) m' r by simp
    moreover have "\<forall>i<length g. \<not> ci_prefix w (drop i t)"
      using u(3) by (auto simp: k split: if_splits)
    ultimately show "\<exists>body close. t = body @ close @ rest \<and> m = body @ close \<and> caps = [body] \<and>
        ci_eq w close \<and> (\<forall>i<length body. \<not> ci_prefix w (drop i t))"
      using m c c' e by blast
  next
    assume "\<exists>body close. t = body @ close @ rest \<and> m = body @ close \<and> caps = [body] \<and>
        ci_eq w close \<and> (\<forall>i<length body. \<not> ci_prefix w (drop i t))"
    then obtain body close where
      t: "t = body @ close @ rest" and m: "m = body @ close" and c: "caps = [body]"
      and e: "ci_eq w close" and f: "\<forall>i<length body. \<not> ci_prefix w (drop i t)"
      by blast
    have "ci_prefix w (close @ rest)"
      using e ci_prefix_split by blast
    then have "bt True (lit w) (close @ rest) = Some ((close, []), rest)"
      using ci_eq_take [OF e, of rest] by (simp add: k)
    moreover have "\<forall>i<length body. bt True (lit w) (drop i t) = None"
      using f by (simp add: k)
    ultimately have "\<exists>u. t = body @ u \<and> bt True (lit w) u = Some ((close, []), rest) \<and>
           (\<forall>i<length body. bt True (lit w) (drop i t) = None)"
      using t by blast
    then have "lazy_star (cls_match True Any) (bt True (lit w)) t = Some (body, (close, []), rest)"
      by (rule li [THEN iffD2])
    then show "bt True (CapLazy Any # lit w) t = Some ((m, caps), rest)"
      using m c by simp
  qed
qed

definition atoms_eq :: "cls list \<Rightarrow> string \<Rightarrow> bool" where
  "atoms_eq cs t \<longleftrightarrow> length t = length cs \<and> atoms_prefix cs t"

lemma ci_eq_atoms: "ci_eq w t = atoms_eq (map Ch w) t"
  by (simp add: ci_eq_def atoms_eq_def ci_prefix_def)

lemma atoms_prefix_split:
  "atoms_prefix cs s \<longleftrightarrow> (\<exists>t u. s = t @ u \<and> atoms_eq cs t)"
proof
  assume p: "atoms_prefix cs s"
  then have "length cs \<le> length s" by (rule atoms_prefix_length)
  moreover have "atoms_prefix cs (take (length cs) s)"
    using p atoms_prefix_take [of cs s] by simp
  ultimately have "atoms_eq cs (take (length cs) s)" by (simp add: atoms_eq_def)
  moreover have "s = take (length cs) s @ drop (length cs) s" by simp
  ultimately show "\<exists>t u. s = t @ u \<and> atoms_eq cs t" by blast
next
  assume "\<exists>t u. s = t @ u \<and> atoms_eq cs t"
  then show "atoms_prefix cs s"
    by (auto simp: atoms_eq_def intro: atoms_prefix_append)
qed

lemma atoms_eq_take:
  "atoms_eq cs t \<Longrightarrow> take (length cs) (t @ u) = t \<and> drop (length cs) (t @ u) = u"
  by (simp add: atoms_eq_def)

lemma atoms_prefix_no:
  "atoms_prefix cs t \<Longrightarrow> \<forall>c\<in>set cs. \<not> cls_match True c e \<Longrightarrow> e \<notin> set (take (length cs) t)"
  by (induction cs t rule: atoms_prefix.induct) auto

lemma atoms_eq_no:
  "atoms_eq cs t \<Longrightarrow> \<forall>c\<in>set cs. \<not> cls_match True c e \<Longrightarrow> e \<notin> set t"
  using atoms_prefix_no [of cs t e] by (simp add: atoms_eq_def)

lemma split_at_unique:
  "e \<notin> set x \<Longrightarrow> e \<notin> set y \<Longrightarrow> x @ e # t = y @ e # t' \<Longrightarrow> x = y \<and> t = t'"
proof (induction x arbitrary: y)
  case Nil
  then show ?case by (cases y) auto
next
  case (Cons a x)
  then show ?case by (cases y) auto
qed

text \<open>An opening tag: the tag name, then everything up to the first \<open>>\<close>.\<close>

lemma bt_tag_open:
  "bt True (map Atom cs @ Greedy (Not (CHR ''>'')) # Atom (Ch (CHR ''>'')) # R) s =
     Some ((m, caps), rest) \<longleftrightarrow>
   (\<exists>tag attrs t m2.
      s = tag @ attrs @ CHR ''>'' # t \<and> atoms_eq cs tag \<and> CHR ''>'' \<notin> set attrs \<and>
      bt True R t = Some ((m2, caps), rest) \<and> m = tag @ attrs @ CHR ''>'' # m2)"
  (is "?L \<longleftrightarrow> ?R")
proof -
  let ?P = "\<lambda>x. x \<noteq> CHR ''>''"
  have g: "bt True (Greedy (Not (CHR ''>'')) # Atom (Ch (CHR ''>'')) # R) u =
      (case dropWhile ?P u of
         [] \<Rightarrow> None
       | y # t \<Rightarrow>
           map_option (\<lambda>((m, caps), rest). ((takeWhile ?P u @ CHR ''>'' # m, caps), rest))
             (bt True R t))" for u
  proof -
    have gu: "greedy_star (cls_match True (Not (CHR ''>''))) (bt True (Atom (Ch (CHR ''>'')) # R)) u =
      (case dropWhile ?P u of
         [] \<Rightarrow> None
       | y # t \<Rightarrow>
           map_option (\<lambda>((m, caps), rest). (takeWhile ?P u, (CHR ''>'' # m, caps), rest))
             (bt True R t))"
      by (rule greedy_until) (simp_all add: same_char_gt)
    show ?thesis
    proof (cases "dropWhile ?P u")
      case Nil
      show ?thesis unfolding bt.simps gu Nil by simp
    next
      case (Cons y t)
      show ?thesis unfolding bt.simps gu Cons
        by (cases "bt True R t") (simp_all add: split_def)
    qed
  qed
  show ?thesis
  proof
    assume l: ?L
    then have p: "atoms_prefix cs s" by (simp add: bt_atoms split: if_splits)
    with l obtain m1 where
      m1: "bt True (Greedy (Not (CHR ''>'')) # Atom (Ch (CHR ''>'')) # R) (drop (length cs) s) =
             Some ((m1, caps), rest)" and m: "m = take (length cs) s @ m1"
      by (auto simp: bt_atoms simp del: bt.simps)
    let ?u = "drop (length cs) s"
    from m1 have gm: "(case dropWhile ?P ?u of
         [] \<Rightarrow> None
       | y # t \<Rightarrow>
           map_option (\<lambda>((m, caps), rest). ((takeWhile ?P ?u @ CHR ''>'' # m, caps), rest))
             (bt True R t)) = Some ((m1, caps), rest)"
      by (simp only: g)
    have "dropWhile ?P ?u \<noteq> []"
    proof
      assume z: "dropWhile ?P ?u = []"
      from gm show False unfolding z by simp
    qed
    then obtain y t where d: "dropWhile ?P ?u = y # t"
      by (cases "dropWhile ?P ?u") auto
    from gm obtain m2 where
      m2: "bt True R t = Some ((m2, caps), rest)" and m1': "m1 = takeWhile ?P ?u @ CHR ''>'' # m2"
      unfolding d by (cases "bt True R t") auto
    from dropWhile_gt [OF d] have u: "?u = takeWhile ?P ?u @ CHR ''>'' # t"
      and n: "CHR ''>'' \<notin> set (takeWhile ?P ?u)" by simp_all
    from p have "length cs \<le> length s" by (rule atoms_prefix_length)
    with p have e: "atoms_eq cs (take (length cs) s)"
      using atoms_prefix_take [of cs s] by (simp add: atoms_eq_def)
    have "s = take (length cs) s @ ?u" by simp
    with u have "s = take (length cs) s @ takeWhile ?P ?u @ CHR ''>'' # t" by simp
    with e n m2 m m1' show ?R by blast
  next
    assume ?R
    then obtain tag attrs t m2 where
      s: "s = tag @ attrs @ CHR ''>'' # t" and e: "atoms_eq cs tag" and n: "CHR ''>'' \<notin> set attrs"
      and m2: "bt True R t = Some ((m2, caps), rest)" and m: "m = tag @ attrs @ CHR ''>'' # m2"
      by blast
    have p: "atoms_prefix cs s"
      using e s atoms_prefix_split by blast
    have td: "take (length cs) s = tag" "drop (length cs) s = attrs @ CHR ''>'' # t"
      using atoms_eq_take [OF e, of "attrs @ CHR ''>'' # t"] s by simp_all
    have "bt True (Greedy (Not (CHR ''>'')) # Atom (Ch (CHR ''>'')) # R) (attrs @ CHR ''>'' # t) =
        Some ((attrs @ CHR ''>'' # m2, caps), rest)"
      using until_gt [OF n, of t] m2 by (simp only: g) simp
    with p td m show ?L
      by (simp add: bt_atoms del: bt.simps)
  qed
qed

lemma list_all_not_gt:
  "list_all (cls_match True (Not (CHR ''>''))) g \<longleftrightarrow> CHR ''>'' \<notin> set g"
  by (induction g) (auto simp: same_char_gt)

text \<open>An opening tag with some text required among its attributes.\<close>

lemma bt_tag_attr:
  assumes no: "\<forall>c\<in>set as. \<not> cls_match True c (CHR ''>'')"
  shows "bt True (map Atom cs @ Greedy (Not (CHR ''>'')) # map Atom as @
                  Greedy (Not (CHR ''>'')) # Atom (Ch (CHR ''>'')) # R) s =
     Some ((m, caps), rest) \<longleftrightarrow>
   (\<exists>tag attrs t m2.
      s = tag @ attrs @ CHR ''>'' # t \<and> atoms_eq cs tag \<and> CHR ''>'' \<notin> set attrs \<and>
      (\<exists>a v b. attrs = a @ v @ b \<and> atoms_eq as v) \<and>
      bt True R t = Some ((m2, caps), rest) \<and> m = tag @ attrs @ CHR ''>'' # m2)"
  (is "?L \<longleftrightarrow> ?R")
proof -
  let ?X = "map Atom as @ Greedy (Not (CHR ''>'')) # Atom (Ch (CHR ''>'')) # R"
  let ?P = "cls_match True (Not (CHR ''>''))"
  have K: "bt True ?X u = Some ((mk, caps'), rest') \<longleftrightarrow>
      (\<exists>v b t m2. u = v @ b @ CHR ''>'' # t \<and> atoms_eq as v \<and> CHR ''>'' \<notin> set b \<and>
         bt True R t = Some ((m2, caps'), rest') \<and> mk = v @ b @ CHR ''>'' # m2)"
    for u mk caps' rest'
    by (rule bt_tag_open)
  have G: "bt True (Greedy (Not (CHR ''>'')) # ?X) u =
      map_option (\<lambda>(g, (m, caps), rest). ((g @ m, caps), rest)) (greedy_star ?P (bt True ?X) u)"
    for u
    by simp
  have sound: "\<exists>attrs t m2. u = attrs @ CHR ''>'' # t \<and> CHR ''>'' \<notin> set attrs \<and>
      (\<exists>a v b. attrs = a @ v @ b \<and> atoms_eq as v) \<and>
      bt True R t = Some ((m2, caps'), rest') \<and> g @ mk = attrs @ CHR ''>'' # m2"
    if gs: "greedy_star ?P (bt True ?X) u = Some (g, (mk, caps'), rest')"
    for u g mk caps' rest'
  proof -
    from greedy_star_Some [OF gs] obtain u' where u': "u = g @ u'"
      and k: "bt True ?X u' = Some ((mk, caps'), rest')" by blast
    from greedy_star_all [OF gs] have ng: "CHR ''>'' \<notin> set g"
      by (simp add: list_all_not_gt)
    from k [unfolded K] obtain v b t m2 where
      v: "u' = v @ b @ CHR ''>'' # t" "atoms_eq as v" "CHR ''>'' \<notin> set b"
      "bt True R t = Some ((m2, caps'), rest')" "mk = v @ b @ CHR ''>'' # m2"
      by blast
    from atoms_eq_no [OF v(2) no] have nv: "CHR ''>'' \<notin> set v" .
    have "u = (g @ v @ b) @ CHR ''>'' # t" using u' v(1) by simp
    moreover have "CHR ''>'' \<notin> set (g @ v @ b)" using ng nv v(3) by simp
    moreover have "g @ mk = (g @ v @ b) @ CHR ''>'' # m2" using v(5) by simp
    ultimately show ?thesis using v(2) v(4) by blast
  qed
  show ?thesis
  proof
    assume l: ?L
    then have p: "atoms_prefix cs s"
      by (simp add: bt_atoms del: bt.simps split: if_splits)
    let ?u = "drop (length cs) s"
    from l p obtain m1 where
      m1: "bt True (Greedy (Not (CHR ''>'')) # ?X) ?u = Some ((m1, caps), rest)"
      and m: "m = take (length cs) s @ m1"
      by (auto simp: bt_atoms simp del: bt.simps)
    from m1 obtain g mk where
      gs: "greedy_star ?P (bt True ?X) ?u = Some (g, (mk, caps), rest)" and m1': "m1 = g @ mk"
      unfolding G by auto
    from sound [OF gs] obtain attrs t m2 where
      a: "?u = attrs @ CHR ''>'' # t" "CHR ''>'' \<notin> set attrs"
      "\<exists>a v b. attrs = a @ v @ b \<and> atoms_eq as v"
      "bt True R t = Some ((m2, caps), rest)" "g @ mk = attrs @ CHR ''>'' # m2"
      by blast
    from p have "length cs \<le> length s" by (rule atoms_prefix_length)
    with p have e: "atoms_eq cs (take (length cs) s)"
      using atoms_prefix_take [of cs s] by (simp add: atoms_eq_def)
    have "s = take (length cs) s @ ?u" by simp
    with a(1) have "s = take (length cs) s @ attrs @ CHR ''>'' # t" by simp
    moreover have "m = take (length cs) s @ attrs @ CHR ''>'' # m2"
      using m m1' a(5) by simp
    ultimately show ?R using e a(2) a(3) a(4) by blast
  next
    assume ?R
    then obtain tag attrs t m2 a v b where
      s: "s = tag @ attrs @ CHR ''>'' # t" and e: "atoms_eq cs tag" and n: "CHR ''>'' \<notin> set attrs"
      and at: "attrs = a @ v @ b" and ev: "atoms_eq as v"
      and m2: "bt True R t = Some ((m2, caps), rest)" and m: "m = tag @ attrs @ CHR ''>'' # m2"
      by blast
    have p: "atoms_prefix cs s"
      using e s atoms_prefix_split by blast
    have td: "take (length cs) s = tag" "drop (length cs) s = attrs @ CHR ''>'' # t"
      using atoms_eq_take [OF e, of "attrs @ CHR ''>'' # t"] s by simp_all
    have nb: "CHR ''>'' \<notin> set b" and na: "CHR ''>'' \<notin> set a" using n at by simp_all
    have "bt True ?X (v @ b @ CHR ''>'' # t) = Some ((v @ b @ CHR ''>'' # m2, caps), rest)"
      unfolding K using ev nb m2 by blast
    then have "bt True ?X (v @ b @ CHR ''>'' # t) \<noteq> None" by simp
    moreover have "list_all ?P a" using na by (simp add: list_all_not_gt)
    ultimately have "greedy_star ?P (bt True ?X) (a @ v @ b @ CHR ''>'' # t) \<noteq> None"
      by (rule greedy_star_complete [rotated])
    then obtain g mk caps' rest' where
      gs: "greedy_star ?P (bt True ?X) (attrs @ CHR ''>'' # t) = Some (g, (mk, caps'), rest')"
      using at by (cases "greedy_star ?P (bt True ?X) (a @ v @ b @ CHR ''>'' # t)") auto
    from sound [OF gs] obtain attrs' t' m2' where
      a': "attrs @ CHR ''>'' # t = attrs' @ CHR ''>'' # t'" "CHR ''>'' \<notin> set attrs'"
      "bt True R t' = Some ((m2', caps'), rest')" "g @ mk = attrs' @ CHR ''>'' # m2'"
      by blast
    from split_at_unique [OF n a'(2) a'(1)] have "attrs = attrs'" "t = t'" by simp_all
    with a'(3) m2 have "m2' = m2" "caps' = caps" "rest' = rest" by simp_all
    with gs a'(4) \<open>attrs = attrs'\<close>
    have "bt True (Greedy (Not (CHR ''>'')) # ?X) (attrs @ CHR ''>'' # t) =
        Some ((attrs @ CHR ''>'' # m2, caps), rest)"
      unfolding G by simp
    with p td m show ?L
      by (simp add: bt_atoms del: bt.simps)
  qed
qed

lemma style_items:
  "items style_re =
     map Atom (map Ch ''<style'') @ Greedy (Not (CHR ''>'')) # Atom (Ch (CHR ''>'')) #
     CapLazy Any # lit ''</style>''"
  by (simp add: style_re_def lit_def)

lemma marked_items:
  "items marked_re =
     map Atom (map Ch ''<style'') @ Greedy (Not (CHR ''>'')) # map Atom (map Ch ''data-href'') @
     Greedy (Not (CHR ''>'')) # Atom (Ch (CHR ''>'')) # CapLazy Any # lit ''</style>''"
  by (simp add: marked_re_def lit_def)

definition rel_atoms :: "cls list" where
  "rel_atoms = map Ch ''rel='' @ [OneOf [dq, sq]] @ map Ch ''stylesheet'' @ [OneOf [dq, sq]]"

lemma link_items:
  "items link_re =
     map Atom (map Ch ''<link'') @ Greedy (Not (CHR ''>'')) # map Atom rel_atoms @
     Greedy (Not (CHR ''>'')) # Atom (Ch (CHR ''>'')) # []"
  by (simp add: link_re_def lit_def rel_atoms_def)

lemma match_style_iff:
  "match_at style_re s = Some ((m, caps), rest) \<longleftrightarrow>
     (\<exists>attrs body. style_block s m attrs body rest \<and> caps = [body])"
  (is "?L \<longleftrightarrow> ?R")
proof -
  have "?L \<longleftrightarrow>
     (\<exists>tag attrs t m2.
        s = tag @ attrs @ CHR ''>'' # t \<and> atoms_eq (map Ch ''<style'') tag \<and>
        CHR ''>'' \<notin> set attrs \<and>
        bt True (CapLazy Any # lit ''</style>'') t = Some ((m2, caps), rest) \<and>
        m = tag @ attrs @ CHR ''>'' # m2)"
    unfolding match_at_def style_items
    by (simp only: style_re_def regex.simps) (rule bt_tag_open)
  also have "\<dots> \<longleftrightarrow>
     (\<exists>tag attrs t body close.
        s = tag @ attrs @ CHR ''>'' # t \<and> ci_eq ''<style'' tag \<and> CHR ''>'' \<notin> set attrs \<and>
        t = body @ close @ rest \<and> caps = [body] \<and> ci_eq ''</style>'' close \<and>
        (\<forall>i<length body. \<not> ci_prefix ''</style>'' (drop i t)) \<and>
        m = tag @ attrs @ CHR ''>'' # body @ close)"
    unfolding bt_closing ci_eq_atoms by blast
  also have "\<dots> \<longleftrightarrow> ?R"
  proof
    assume "\<exists>tag attrs t body close.
        s = tag @ attrs @ CHR ''>'' # t \<and> ci_eq ''<style'' tag \<and> CHR ''>'' \<notin> set attrs \<and>
        t = body @ close @ rest \<and> caps = [body] \<and> ci_eq ''</style>'' close \<and>
        (\<forall>i<length body. \<not> ci_prefix ''</style>'' (drop i t)) \<and>
        m = tag @ attrs @ CHR ''>'' # body @ close"
    then obtain tag attrs t body close where
      h: "s = tag @ attrs @ CHR ''>'' # t" "ci_eq ''<style'' tag" "CHR ''>'' \<notin> set attrs"
      "t = body @ close @ rest" "caps = [body]" "ci_eq ''</style>'' close"
      "\<forall>i<length body. \<not> ci_prefix ''</style>'' (drop i t)"
      "m = tag @ attrs @ CHR ''>'' # body @ close"
      by blast
    have "style_block s m attrs body rest"
      unfolding style_block_def
      apply (rule exI [of _ tag])
      apply (rule exI [of _ close])
      using h by simp
    with h(5) show ?R by blast
  next
    assume ?R
    then obtain attrs body tag close where
      h: "s = m @ rest" "m = tag @ attrs @ ''>'' @ body @ close" "ci_eq ''<style'' tag"
      "CHR ''>'' \<notin> set attrs" "ci_eq ''</style>'' close"
      "\<forall>i<length body. \<not> ci_prefix ''</style>'' (drop i (body @ close @ rest))"
      "caps = [body]"
      unfolding style_block_def by blast
    show "\<exists>tag attrs t body close.
        s = tag @ attrs @ CHR ''>'' # t \<and> ci_eq ''<style'' tag \<and> CHR ''>'' \<notin> set attrs \<and>
        t = body @ close @ rest \<and> caps = [body] \<and> ci_eq ''</style>'' close \<and>
        (\<forall>i<length body. \<not> ci_prefix ''</style>'' (drop i t)) \<and>
        m = tag @ attrs @ CHR ''>'' # body @ close"
      apply (rule exI [of _ tag])
      apply (rule exI [of _ attrs])
      apply (rule exI [of _ "body @ close @ rest"])
      apply (rule exI [of _ body])
      apply (rule exI [of _ close])
      using h by simp
  qed
  finally show ?thesis .
qed

lemma match_marked_iff:
  "match_at marked_re s = Some ((m, caps), rest) \<longleftrightarrow>
     (\<exists>attrs body. style_block s m attrs body rest \<and>
        (\<exists>a v b. attrs = a @ v @ b \<and> ci_eq ''data-href'' v) \<and> caps = [body])"
  (is "?L \<longleftrightarrow> ?R")
proof -
  have no: "\<forall>c\<in>set (map Ch ''data-href''). \<not> cls_match True c (CHR ''>'')"
    by (simp add: same_char_def canonicalize_def)
  have "?L \<longleftrightarrow>
     (\<exists>tag attrs t m2.
        s = tag @ attrs @ CHR ''>'' # t \<and> atoms_eq (map Ch ''<style'') tag \<and>
        CHR ''>'' \<notin> set attrs \<and>
        (\<exists>a v b. attrs = a @ v @ b \<and> atoms_eq (map Ch ''data-href'') v) \<and>
        bt True (CapLazy Any # lit ''</style>'') t = Some ((m2, caps), rest) \<and>
        m = tag @ attrs @ CHR ''>'' # m2)"
    unfolding match_at_def marked_items
    by (simp only: marked_re_def regex.simps) (rule bt_tag_attr [OF no])
  also have "\<dots> \<longleftrightarrow>
     (\<exists>tag attrs t body close.
        s = tag @ attrs @ CHR ''>'' # t \<and> ci_eq ''<style'' tag \<and> CHR ''>'' \<notin> set attrs \<and>
        (\<exists>a v b. attrs = a @ v @ b \<and> ci_eq ''data-href'' v) \<and>
        t = body @ close @ rest \<and> caps = [body] \<and> ci_eq ''</style>'' close \<and>
        (\<forall>i<length body. \<not> ci_prefix ''</style>'' (drop i t)) \<and>
        m = tag @ attrs @ CHR ''>'' # body @ close)"
    unfolding bt_closing ci_eq_atoms by blast
  also have "\<dots> \<longleftrightarrow> ?R"
  proof
    assume "\<exists>tag attrs t body close.
        s = tag @ attrs @ CHR ''>'' # t \<and> ci_eq ''<style'' tag \<and> CHR ''>'' \<notin> set attrs \<and>
        (\<exists>a v b. attrs = a @ v @ b \<and> ci_eq ''data-href'' v) \<and>
        t = body @ close @ rest \<and> caps = [body] \<and> ci_eq ''</style>'' close \<and>
        (\<forall>i<length body. \<not> ci_prefix ''</style>'' (drop i t)) \<and>
        m = tag @ attrs @ CHR ''>'' # body @ close"
    then obtain tag attrs t body close where
      h: "s = tag @ attrs @ CHR ''>'' # t" "ci_eq ''<style'' tag" "CHR ''>'' \<notin> set attrs"
      "\<exists>a v b. attrs = a @ v @ b \<and> ci_eq ''data-href'' v"
      "t = body @ close @ rest" "caps = [body]" "ci_eq ''</style>'' close"
      "\<forall>i<length body. \<not> ci_prefix ''</style>'' (drop i t)"
      "m = tag @ attrs @ CHR ''>'' # body @ close"
      by blast
    have "style_block s m attrs body rest"
      unfolding style_block_def
      apply (rule exI [of _ tag])
      apply (rule exI [of _ close])
      using h by simp
    with h(4) h(6) show ?R by blast
  next
    assume ?R
    then obtain attrs body tag close where
      h: "s = m @ rest" "m = tag @ attrs @ ''>'' @ body @ close" "ci_eq ''<style'' tag"
      "CHR ''>'' \<notin> set attrs" "ci_eq ''</style>'' close"
      "\<forall>i<length body. \<not> ci_prefix ''</style>'' (drop i (body @ close @ rest))"
      "caps = [body]" "\<exists>a v b. attrs = a @ v @ b \<and> ci_eq ''data-href'' v"
      unfolding style_block_def by blast
    show "\<exists>tag attrs t body close.
        s = tag @ attrs @ CHR ''>'' # t \<and> ci_eq ''<style'' tag \<and> CHR ''>'' \<notin> set attrs \<and>
        (\<exists>a v b. attrs = a @ v @ b \<and> ci_eq ''data-href'' v) \<and>
        t = body @ close @ rest \<and> caps = [body] \<and> ci_eq ''</style>'' close \<and>
        (\<forall>i<length body. \<not> ci_prefix ''</style>'' (drop i t)) \<and>
        m = tag @ attrs @ CHR ''>'' # body @ close"
      apply (rule exI [of _ tag])
      apply (rule exI [of _ attrs])
      apply (rule exI [of _ "body @ close @ rest"])
      apply (rule exI [of _ body])
      apply (rule exI [of _ close])
      using h by simp
  qed
  finally show ?thesis .
qed

text \<open>
  A marked style block is a style block whose attribute text holds \<open>data-href\<close>: at
  any place, the marked expression matches what the plain one matches or nothing.
\<close>

lemma match_marked_style:
  "match_at marked_re s = Some r \<Longrightarrow> match_at style_re s = Some r"
proof -
  assume a: "match_at marked_re s = Some r"
  obtain m caps rest where r: "r = ((m, caps), rest)" by (metis prod.collapse)
  from a show ?thesis unfolding r match_marked_iff match_style_iff by blast
qed

lemma atoms_eq_list_all2: "atoms_eq cs t \<longleftrightarrow> list_all2 (cls_match True) cs t"
proof (induction cs t rule: atoms_prefix.induct)
  case (1 s)
  show ?case by (auto simp: atoms_eq_def)
next
  case (2 c cs)
  show ?case by (simp add: atoms_eq_def)
next
  case (3 c cs x xs)
  then show ?case by (auto simp: atoms_eq_def)
qed

lemma canonicalize_quote:
  "canonicalize x = dq \<longleftrightarrow> x = dq" "canonicalize x = sq \<longleftrightarrow> x = sq"
  by (auto simp: canonicalize_def dq_def sq_def split: option.splits if_splits)

lemma quote_class: "cls_match True (OneOf [dq, sq]) q \<longleftrightarrow> q = dq \<or> q = sq"
proof -
  have c: "canonicalize dq = dq" "canonicalize sq = sq"
    by (simp_all add: canonicalize_def dq_def sq_def)
  have "canonicalize q = canonicalize dq \<longleftrightarrow> q = dq" "canonicalize q = canonicalize sq \<longleftrightarrow> q = sq"
    by (simp_all only: c canonicalize_quote)
  then show ?thesis
    by (simp add: same_char_def)
qed

definition rel_stylesheet :: "string \<Rightarrow> bool" where
  "rel_stylesheet v \<longleftrightarrow>
     (\<exists>r q1 w q2. v = r @ [q1] @ w @ [q2] \<and> ci_eq ''rel='' r \<and> (q1 = dq \<or> q1 = sq) \<and>
        ci_eq ''stylesheet'' w \<and> (q2 = dq \<or> q2 = sq))"

lemma atoms_eq_append:
  "atoms_eq (xs @ ys) v \<longleftrightarrow> (\<exists>v1 v2. v = v1 @ v2 \<and> atoms_eq xs v1 \<and> atoms_eq ys v2)"
proof
  assume "atoms_eq (xs @ ys) v"
  then have "list_all2 (cls_match True) (xs @ ys) v" by (simp only: atoms_eq_list_all2)
  then obtain us vs where "v = us @ vs" "list_all2 (cls_match True) xs us"
    "list_all2 (cls_match True) ys vs"
    unfolding list_all2_append1 by blast
  then show "\<exists>v1 v2. v = v1 @ v2 \<and> atoms_eq xs v1 \<and> atoms_eq ys v2"
    unfolding atoms_eq_list_all2 by blast
next
  assume "\<exists>v1 v2. v = v1 @ v2 \<and> atoms_eq xs v1 \<and> atoms_eq ys v2"
  then obtain v1 v2 where v: "v = v1 @ v2" "list_all2 (cls_match True) xs v1"
    "list_all2 (cls_match True) ys v2"
    unfolding atoms_eq_list_all2 by blast
  from v(2) v(3) have "list_all2 (cls_match True) (xs @ ys) (v1 @ v2)"
    by (rule list_all2_appendI)
  with v(1) show "atoms_eq (xs @ ys) v" by (simp only: atoms_eq_list_all2)
qed

lemma atoms_eq_quote:
  "atoms_eq [OneOf [dq, sq]] x \<longleftrightarrow> (\<exists>q. x = [q] \<and> (q = dq \<or> q = sq))"
  unfolding atoms_eq_list_all2 using quote_class by (cases x) (auto simp: list_all2_Cons1)

lemma atoms_eq_appendI:
  "atoms_eq xs v1 \<Longrightarrow> atoms_eq ys v2 \<Longrightarrow> atoms_eq (xs @ ys) (v1 @ v2)"
  unfolding atoms_eq_append by blast

lemma rel_atoms_iff: "atoms_eq rel_atoms v \<longleftrightarrow> rel_stylesheet v"
proof
  assume "atoms_eq rel_atoms v"
  then have "atoms_eq (map Ch ''rel='' @ ([OneOf [dq, sq]] @ (map Ch ''stylesheet'' @ [OneOf [dq, sq]]))) v"
    by (simp only: rel_atoms_def)
  then obtain r x1 where 1: "v = r @ x1" "atoms_eq (map Ch ''rel='') r"
    "atoms_eq ([OneOf [dq, sq]] @ (map Ch ''stylesheet'' @ [OneOf [dq, sq]])) x1"
    using atoms_eq_append [THEN iffD1] by blast
  from 1(3) obtain y1 x2 where 2: "x1 = y1 @ x2" "atoms_eq [OneOf [dq, sq]] y1"
    "atoms_eq (map Ch ''stylesheet'' @ [OneOf [dq, sq]]) x2"
    using atoms_eq_append [THEN iffD1] by blast
  from 2(3) obtain w y2 where 3: "x2 = w @ y2" "atoms_eq (map Ch ''stylesheet'') w"
    "atoms_eq [OneOf [dq, sq]] y2"
    using atoms_eq_append [THEN iffD1] by blast
  from 2(2) obtain q1 where q1: "y1 = [q1]" "q1 = dq \<or> q1 = sq"
    unfolding atoms_eq_quote by blast
  from 3(3) obtain q2 where q2: "y2 = [q2]" "q2 = dq \<or> q2 = sq"
    unfolding atoms_eq_quote by blast
  have "v = r @ [q1] @ w @ [q2]" using 1(1) 2(1) 3(1) q1(1) q2(1) by simp
  with 1(2) 3(2) q1(2) q2(2) show "rel_stylesheet v"
    unfolding rel_stylesheet_def ci_eq_atoms by blast
next
  assume "rel_stylesheet v"
  then obtain r q1 w q2 where h: "v = r @ [q1] @ w @ [q2]" "atoms_eq (map Ch ''rel='') r"
    "q1 = dq \<or> q1 = sq" "atoms_eq (map Ch ''stylesheet'') w" "q2 = dq \<or> q2 = sq"
    unfolding rel_stylesheet_def ci_eq_atoms by blast
  have a1: "atoms_eq [OneOf [dq, sq]] [q1]" "atoms_eq [OneOf [dq, sq]] [q2]"
    unfolding atoms_eq_quote using h(3) h(5) by simp_all
  have "atoms_eq (map Ch ''stylesheet'' @ [OneOf [dq, sq]]) (w @ [q2])"
    by (rule atoms_eq_appendI [OF h(4) a1(2)])
  then have "atoms_eq ([OneOf [dq, sq]] @ (map Ch ''stylesheet'' @ [OneOf [dq, sq]])) ([q1] @ (w @ [q2]))"
    by (rule atoms_eq_appendI [OF a1(1)])
  then have "atoms_eq (map Ch ''rel='' @ ([OneOf [dq, sq]] @ (map Ch ''stylesheet'' @ [OneOf [dq, sq]])))
      (r @ ([q1] @ (w @ [q2])))"
    by (rule atoms_eq_appendI [OF h(2)])
  then show "atoms_eq rel_atoms v"
    unfolding h(1) by (simp only: rel_atoms_def)
qed

text \<open>
  \<open>link_tag_text s m rest\<close>: \<open>s\<close> starts with \<open>m\<close>, a \<open><link\<close> tag up to its first
  \<open>>\<close> whose attribute text holds \<open>rel=\<close>, a quote, \<open>stylesheet\<close> and a quote, and goes on
  with \<open>rest\<close>.
\<close>

definition link_tag_text :: "string \<Rightarrow> string \<Rightarrow> string \<Rightarrow> bool" where
  "link_tag_text s m rest \<longleftrightarrow>
     (\<exists>tag attrs.
        s = m @ rest \<and> m = tag @ attrs @ ''>'' \<and> ci_eq ''<link'' tag \<and> CHR ''>'' \<notin> set attrs \<and>
        (\<exists>a v b. attrs = a @ v @ b \<and> rel_stylesheet v))"

lemma match_link_iff:
  "match_at link_re s = Some ((m, caps), rest) \<longleftrightarrow> link_tag_text s m rest \<and> caps = []"
  (is "?L \<longleftrightarrow> ?R")
proof -
  have no: "\<forall>c\<in>set rel_atoms. \<not> cls_match True c (CHR ''>'')"
    by (simp add: rel_atoms_def same_char_def canonicalize_def dq_def sq_def)
  have "?L \<longleftrightarrow>
     (\<exists>tag attrs t m2.
        s = tag @ attrs @ CHR ''>'' # t \<and> atoms_eq (map Ch ''<link'') tag \<and>
        CHR ''>'' \<notin> set attrs \<and>
        (\<exists>a v b. attrs = a @ v @ b \<and> atoms_eq rel_atoms v) \<and>
        bt True [] t = Some ((m2, caps), rest) \<and>
        m = tag @ attrs @ CHR ''>'' # m2)"
    unfolding match_at_def link_items
    by (simp only: link_re_def regex.simps) (rule bt_tag_attr [OF no])
  also have "\<dots> \<longleftrightarrow> ?R"
  proof
    assume "\<exists>tag attrs t m2.
        s = tag @ attrs @ CHR ''>'' # t \<and> atoms_eq (map Ch ''<link'') tag \<and>
        CHR ''>'' \<notin> set attrs \<and>
        (\<exists>a v b. attrs = a @ v @ b \<and> atoms_eq rel_atoms v) \<and>
        bt True [] t = Some ((m2, caps), rest) \<and>
        m = tag @ attrs @ CHR ''>'' # m2"
    then obtain tag attrs t m2 where
      h: "s = tag @ attrs @ CHR ''>'' # t" "atoms_eq (map Ch ''<link'') tag"
      "CHR ''>'' \<notin> set attrs" "\<exists>a v b. attrs = a @ v @ b \<and> atoms_eq rel_atoms v"
      "bt True [] t = Some ((m2, caps), rest)" "m = tag @ attrs @ CHR ''>'' # m2"
      by blast
    from h(5) have e: "m2 = []" "caps = []" "rest = t" by simp_all
    have "link_tag_text s m rest"
      unfolding link_tag_text_def
      apply (rule exI [of _ tag])
      apply (rule exI [of _ attrs])
      using h e by (simp add: ci_eq_atoms rel_atoms_iff)
    with e show ?R by simp
  next
    assume ?R
    then obtain tag attrs where
      h: "s = m @ rest" "m = tag @ attrs @ ''>''" "ci_eq ''<link'' tag" "CHR ''>'' \<notin> set attrs"
      "\<exists>a v b. attrs = a @ v @ b \<and> atoms_eq rel_atoms v" "caps = []"
      unfolding link_tag_text_def rel_atoms_iff by blast
    show "\<exists>tag attrs t m2.
        s = tag @ attrs @ CHR ''>'' # t \<and> atoms_eq (map Ch ''<link'') tag \<and>
        CHR ''>'' \<notin> set attrs \<and>
        (\<exists>a v b. attrs = a @ v @ b \<and> atoms_eq rel_atoms v) \<and>
        bt True [] t = Some ((m2, caps), rest) \<and>
        m = tag @ attrs @ CHR ''>'' # m2"
      apply (rule exI [of _ tag])
      apply (rule exI [of _ attrs])
      apply (rule exI [of _ rest])
      apply (rule exI [of _ "[]"])
      using h by (simp add: ci_eq_atoms)
  qed
  finally show ?thesis .
qed

lemma includes_str_iff: "includes_str s sub \<longleftrightarrow> (\<exists>a b. s = a @ sub @ b)"
proof (induction s)
  case Nil
  show ?case by auto
next
  case (Cons x xs)
  show ?case
  proof
    assume "includes_str (x # xs) sub"
    then consider "prefix sub (x # xs)" | "includes_str xs sub" by auto
    then show "\<exists>a b. x # xs = a @ sub @ b"
    proof cases
      case 1
      then obtain b where "x # xs = sub @ b" by (auto simp: prefix_def)
      then have "x # xs = [] @ sub @ b" by simp
      then show ?thesis by blast
    next
      case 2
      with Cons obtain a b where "xs = a @ sub @ b" by blast
      then have "x # xs = (x # a) @ sub @ b" by simp
      then show ?thesis by blast
    qed
  next
    assume "\<exists>a b. x # xs = a @ sub @ b"
    then obtain a b where ab: "x # xs = a @ sub @ b" by blast
    show "includes_str (x # xs) sub"
    proof (cases a)
      case Nil
      with ab have "prefix sub (x # xs)" by (simp add: prefix_def)
      then show ?thesis by simp
    next
      case (Cons y a')
      with ab have "xs = a' @ sub @ b" by simp
      with Cons.IH have "includes_str xs sub" by blast
      then show ?thesis by simp
    qed
  qed
qed

lemma search_SomeD:
  "search re x = Some (pre, (m, caps), post) \<Longrightarrow>
     x = pre @ m @ post \<and> match_at re (m @ post) = Some ((m, caps), post) \<and>
     (\<forall>i<length pre. match_at re (drop i x) = None)"
proof (induction x arbitrary: pre)
  case Nil
  then have e: "pre = []" and k: "match_at re [] = Some ((m, caps), post)"
    by (auto split: option.splits)
  from k have "[] = m @ post"
    using bt_append [of "ignoreCase re" "items re" "[]" m caps post] by (simp add: match_at_def)
  with e k show ?case by simp
next
  case (Cons c x)
  show ?case
  proof (cases "match_at re (c # x)")
    case (Some r)
    with Cons.prems have e: "pre = []" and r: "r = ((m, caps), post)"
      by simp_all
    from Some r have "c # x = m @ post"
      using bt_append [of "ignoreCase re" "items re" "c # x" m caps post]
      by (simp add: match_at_def)
    with e Some r show ?thesis by simp
  next
    case None
    with Cons.prems obtain pre' where p: "pre = c # pre'"
      and s: "search re x = Some (pre', (m, caps), post)"
      by (auto split: option.splits)
    note ih = Cons.IH [OF s]
    note x = ih [THEN conjunct1]
    note k = ih [THEN conjunct2, THEN conjunct1]
    note n = ih [THEN conjunct2, THEN conjunct2]
    have "\<forall>i<length pre. match_at re (drop i (c # x)) = None"
    proof (intro allI impI)
      fix i assume i: "i < length pre"
      show "match_at re (drop i (c # x)) = None"
      proof (cases i)
        case 0
        with None show ?thesis by simp
      next
        case (Suc j)
        with i p have "j < length pre'" by simp
        with n Suc show ?thesis by simp
      qed
    qed
    with p x k show ?thesis by simp
  qed
qed

lemma search_SomeI:
  "match_at re (m @ post) = Some ((m, caps), post) \<Longrightarrow>
   (\<forall>i<length pre. match_at re (drop i (pre @ m @ post)) = None) \<Longrightarrow>
   search re (pre @ m @ post) = Some (pre, (m, caps), post)"
proof (induction pre)
  case Nil
  then show ?case by (cases "m @ post") simp_all
next
  case (Cons d pre)
  have "0 < length (d # pre)" by simp
  with Cons.prems(2) have "match_at re (drop 0 ((d # pre) @ m @ post)) = None" by blast
  then have z: "match_at re (d # pre @ m @ post) = None" by simp
  have "\<forall>i<length pre. match_at re (drop i (pre @ m @ post)) = None"
  proof (intro allI impI)
    fix i assume "i < length pre"
    then have "Suc i < length (d # pre)" by simp
    with Cons.prems(2) have "match_at re (drop (Suc i) ((d # pre) @ m @ post)) = None" by blast
    then show "match_at re (drop i (pre @ m @ post)) = None" by simp
  qed
  from Cons.IH [OF Cons.prems(1) this] z show ?case by simp
qed

lemma search_Some_iff:
  "search re x = Some (pre, (m, caps), post) \<longleftrightarrow>
     x = pre @ m @ post \<and> match_at re (m @ post) = Some ((m, caps), post) \<and>
     (\<forall>i<length pre. match_at re (drop i x) = None)"
proof
  assume "search re x = Some (pre, (m, caps), post)"
  then show "x = pre @ m @ post \<and> match_at re (m @ post) = Some ((m, caps), post) \<and>
     (\<forall>i<length pre. match_at re (drop i x) = None)"
    by (rule search_SomeD)
next
  assume h: "x = pre @ m @ post \<and> match_at re (m @ post) = Some ((m, caps), post) \<and>
     (\<forall>i<length pre. match_at re (drop i x) = None)"
  note x = h [THEN conjunct1]
  note k = h [THEN conjunct2, THEN conjunct1]
  note n = h [THEN conjunct2, THEN conjunct2]
  from n have "\<forall>i<length pre. match_at re (drop i (pre @ m @ post)) = None"
    unfolding x .
  with k show "search re x = Some (pre, (m, caps), post)"
    unfolding x by (rule search_SomeI)
qed

lemma search_None_iff:
  "search re x = None \<longleftrightarrow> (\<forall>i\<le>length x. match_at re (drop i x) = None)"
proof (induction x)
  case Nil
  show ?case by (cases "match_at re []") auto
next
  case (Cons c x)
  have "(\<forall>i\<le>length (c # x). match_at re (drop i (c # x)) = None) \<longleftrightarrow>
        match_at re (c # x) = None \<and> (\<forall>i\<le>length x. match_at re (drop i x) = None)"
  proof (intro iffI conjI allI impI)
    assume h: "\<forall>i\<le>length (c # x). match_at re (drop i (c # x)) = None"
    from h have "match_at re (drop 0 (c # x)) = None" by blast
    then show "match_at re (c # x) = None" by simp
    fix i assume "i \<le> length x"
    then have "Suc i \<le> length (c # x)" by simp
    with h have "match_at re (drop (Suc i) (c # x)) = None" by blast
    then show "match_at re (drop i x) = None" by simp
  next
    fix i
    assume h: "match_at re (c # x) = None \<and> (\<forall>i\<le>length x. match_at re (drop i x) = None)"
      and i: "i \<le> length (c # x)"
    show "match_at re (drop i (c # x)) = None"
    proof (cases i)
      case 0
      with h show ?thesis by simp
    next
      case (Suc j)
      with i have "j \<le> length x" by simp
      with h Suc show ?thesis by simp
    qed
  qed
  with Cons show ?case by (cases "match_at re (c # x)") simp_all
qed

text \<open>
  \<open>replaces B repl x y\<close>: \<open>y\<close> is \<open>x\<close> with every block replaced by \<open>repl\<close>, the blocks
  being found from left to right, each the leftmost one in what follows the one before.
\<close>

inductive replaces :: "(string \<Rightarrow> string \<Rightarrow> string \<Rightarrow> bool) \<Rightarrow> string \<Rightarrow> string \<Rightarrow> string \<Rightarrow> bool"
  for B :: "string \<Rightarrow> string \<Rightarrow> string \<Rightarrow> bool" and repl :: string where
  none: "(\<forall>i\<le>length x. \<forall>m rest. \<not> B (drop i x) m rest) \<Longrightarrow> replaces B repl x x"
| step: "B (m @ post) m post \<Longrightarrow>
         (\<forall>i<length pre. \<forall>m' rest'. \<not> B (drop i (pre @ m @ post)) m' rest') \<Longrightarrow>
         replaces B repl post y \<Longrightarrow>
         replaces B repl (pre @ m @ post) (pre @ repl @ y)"

lemma replace_all_replaces:
  assumes char: "\<And>s m rest. (\<exists>caps. match_at re s = Some ((m, caps), rest)) \<longleftrightarrow> B s m rest"
    and ne: "\<And>s m rest. B s m rest \<Longrightarrow> m \<noteq> []"
  shows "replaces B repl x (replace_all re (\<lambda>mt. repl) x)"
proof (induction "length x" arbitrary: x rule: less_induct)
  case less
  show ?case
  proof (cases "search re x")
    case None
    then have n: "\<forall>i\<le>length x. match_at re (drop i x) = None"
      by (simp only: search_None_iff)
    have "\<forall>i\<le>length x. \<forall>m rest. \<not> B (drop i x) m rest"
    proof (intro allI impI notI)
      fix i m rest
      assume "i \<le> length x" and "B (drop i x) m rest"
      with char [of "drop i x" m rest] n show False by auto
    qed
    then have "replaces B repl x x" by (rule replaces.none)
    moreover have "replace_all re (\<lambda>mt. repl) x = x"
      using None by (simp add: replace_all.simps)
    ultimately show ?thesis by simp
  next
    case (Some r)
    obtain pre m caps post where r: "r = (pre, (m, caps), post)"
      by (metis prod.collapse)
    note s = Some [unfolded r]
    note d = search_SomeD [OF s]
    note x = d [THEN conjunct1]
    note k = d [THEN conjunct2, THEN conjunct1]
    note n = d [THEN conjunct2, THEN conjunct2]
    from k char [of "m @ post" m post] have b: "B (m @ post) m post" by blast
    then have m: "m \<noteq> []" by (rule ne)
    have e: "\<forall>i<length pre. \<forall>m' rest'. \<not> B (drop i (pre @ m @ post)) m' rest'"
    proof (intro allI impI notI)
      fix i m' rest'
      assume "i < length pre" and "B (drop i (pre @ m @ post)) m' rest'"
      with char [of "drop i (pre @ m @ post)" m' rest'] n [unfolded x] show False by auto
    qed
    have "length post < length x" using x m by simp
    then have ih: "replaces B repl post (replace_all re (\<lambda>mt. repl) post)"
      by (rule less)
    have "replace_all re (\<lambda>mt. repl) x = pre @ repl @ replace_all re (\<lambda>mt. repl) post"
      using s m by (subst replace_all.simps) simp
    moreover have "replaces B repl (pre @ m @ post) (pre @ repl @ replace_all re (\<lambda>mt. repl) post)"
      using b e ih by (rule replaces.step)
    ultimately show ?thesis unfolding x by simp
  qed
qed

lemma split_first_None: "split_first pat s = None \<longleftrightarrow> \<not> includes_str s pat"
  by (induction s) auto

lemma split_first_SomeD:
  "split_first pat s = Some (b, a) \<Longrightarrow>
     s = b @ pat @ a \<and> (\<forall>i<length b. \<not> prefix pat (drop i s))"
proof (induction s arbitrary: b)
  case Nil
  then show ?case by (auto split: if_splits)
next
  case (Cons c s)
  show ?case
  proof (cases "prefix pat (c # s)")
    case True
    with Cons.prems have b: "b = []" and a: "a = drop (length pat) (c # s)" by simp_all
    from True obtain t where t: "c # s = pat @ t" by (auto simp: prefix_def)
    then have "drop (length pat) (c # s) = t" by (metis append_eq_conv_conj)
    with a b t show ?thesis by simp
  next
    case False
    with Cons.prems obtain b' where b: "b = c # b'" and s: "split_first pat s = Some (b', a)"
      by auto
    note ih = Cons.IH [OF s]
    note x = ih [THEN conjunct1]
    note n = ih [THEN conjunct2]
    have "\<forall>i<length b. \<not> prefix pat (drop i (c # s))"
    proof (intro allI impI)
      fix i assume i: "i < length b"
      show "\<not> prefix pat (drop i (c # s))"
      proof (cases i)
        case 0
        with False show ?thesis by simp
      next
        case (Suc j)
        with i b have "j < length b'" by simp
        with n Suc show ?thesis by simp
      qed
    qed
    with b x show ?thesis by simp
  qed
qed

lemma split_first_SomeI:
  "(\<forall>i<length b. \<not> prefix pat (drop i (b @ pat @ a))) \<Longrightarrow>
   split_first pat (b @ pat @ a) = Some (b, a)"
proof (induction b)
  case Nil
  have p: "prefix pat (pat @ a)" by simp
  have d: "drop (length pat) (pat @ a) = a" by simp
  have "split_first pat (pat @ a) = Some ([], a)"
  proof (cases "pat @ a")
    case Nil
    then show ?thesis by simp
  next
    case (Cons c t)
    have "split_first pat (c # t) = Some ([], drop (length pat) (c # t))"
      using p unfolding Cons by simp
    then show ?thesis using d unfolding Cons by simp
  qed
  then show ?case by simp
next
  case (Cons d b)
  have "0 < length (d # b)" by simp
  with Cons.prems have "\<not> prefix pat (drop 0 ((d # b) @ pat @ a))" by blast
  then have z: "\<not> prefix pat (d # b @ pat @ a)" by simp
  have "\<forall>i<length b. \<not> prefix pat (drop i (b @ pat @ a))"
  proof (intro allI impI)
    fix i assume "i < length b"
    then have "Suc i < length (d # b)" by simp
    with Cons.prems have "\<not> prefix pat (drop (Suc i) ((d # b) @ pat @ a))" by blast
    then show "\<not> prefix pat (drop i (b @ pat @ a))" by simp
  qed
  from Cons.IH [OF this] z show ?case by simp
qed

lemma get_substitution_plain:
  "CHR ''$'' \<notin> set t \<Longrightarrow> get_substitution matched pre post t = t"
  by (induction matched pre post t rule: get_substitution.induct) auto

lemma fold_collect:
  "fold (\<lambda>mt acc. if \<not> p mt then acc @ g mt else acc) ms acc0 =
     acc0 @ concat (map g (filter (\<lambda>mt. \<not> p mt) ms))"
  by (induction ms arbitrary: acc0) auto

lemma matchAll_set:
  "mt \<in> set (matchAll re s) \<Longrightarrow> \<exists>t rest. match_at re (fst mt @ rest) = Some (mt, rest)"
proof (induction "length s" arbitrary: s rule: less_induct)
  case less
  show ?case
  proof (cases "search re s")
    case None
    with less.prems show ?thesis by (simp add: matchAll.simps)
  next
    case (Some r)
    obtain pre m caps post where r: "r = (pre, (m, caps), post)"
      by (metis prod.collapse)
    note s = Some [unfolded r]
    note d = search_SomeD [OF s]
    note x = d [THEN conjunct1]
    note k = d [THEN conjunct2, THEN conjunct1]
    show ?thesis
    proof (cases "mt = (m, caps)")
      case True
      with k show ?thesis by auto
    next
      case False
      show ?thesis
      proof (cases "m = []")
        case True
        with less.prems s False obtain c xs where p: "post = c # xs" and i: "mt \<in> set (matchAll re xs)"
          by (subst (asm) matchAll.simps) (auto split: list.splits)
        have "length xs < length s" using x p by simp
        from less.hyps [OF this i] show ?thesis .
      next
        case m: False
        with less.prems s False have i: "mt \<in> set (matchAll re post)"
          by (subst (asm) matchAll.simps) auto
        have "length post < length s" using x m by simp
        from less.hyps [OF this i] show ?thesis .
      qed
    qed
  qed
qed

subsection \<open>Reading the critical CSS\<close>









definition marked_content :: "string \<Rightarrow> string \<Rightarrow> string \<Rightarrow> string \<Rightarrow> bool" where
  "marked_content s m body rest \<longleftrightarrow>
     (\<exists>attrs. style_block s m attrs body rest \<and>
        (\<exists>a v b. attrs = a @ v @ b \<and> ci_eq ''data-href'' v))"

lemma ci_eq_nonempty: "ci_eq w t \<Longrightarrow> w \<noteq> [] \<Longrightarrow> t \<noteq> []"
  by (auto simp: ci_eq_def)

lemma style_block_nonempty: "style_block s m attrs body rest \<Longrightarrow> m \<noteq> []"
  unfolding style_block_def using ci_eq_nonempty [of "''<style''"] by auto

lemma style_block_includes:
  "style_block s m attrs body rest \<Longrightarrow> includes_str body sub \<Longrightarrow> includes_str m sub"
proof -
  assume "style_block s m attrs body rest" and i: "includes_str body sub"
  then obtain tag close where m: "m = tag @ attrs @ ''>'' @ body @ close"
    unfolding style_block_def by blast
  from i obtain a b where "body = a @ sub @ b"
    unfolding includes_str_iff by blast
  with m have "m = (tag @ attrs @ ''>'' @ a) @ sub @ (b @ close)" by simp
  then show "includes_str m sub"
    unfolding includes_str_iff by blast
qed


lemma extract_marked:
  assumes "search marked_re out = Some (pre, (m, caps), rest)"
  shows "\<exists>body. marked_content (m @ rest) m body rest \<and> extract_critical out = body"
proof -
  note d = search_SomeD [OF assms]
  note k = d [THEN conjunct2, THEN conjunct1]
  from k obtain attrs body where b: "style_block (m @ rest) m attrs body rest"
    and a: "\<exists>a v b. attrs = a @ v @ b \<and> ci_eq ''data-href'' v" and c: "caps = [body]"
    unfolding match_marked_iff by blast
  have "extract_critical out = body"
    using assms c by (simp add: extract_critical_def match_first_def)
  with a b show ?thesis unfolding marked_content_def by blast
qed

lemma extract_fallback:
  assumes "match_first marked_re out = None"
  shows "extract_critical out =
     concat (map group1 (filter (\<lambda>mt. \<not> includes_str (fst mt) ''existing-style-placeholder'')
       (matchAll style_re out)))"
  using assms by (simp add: extract_critical_def fold_collect)













lemma concat_filter_if:
  "concat (map g (filter P xs)) = concat (map (\<lambda>x. if P x then g x else []) xs)"
  by (induction xs) auto

text \<open>
  C10. Without a marked block, a style block adds its content to the critical CSS exactly
  when its whole matched text does not contain \<open>existing-style-placeholder\<close>; and a
  block whose content contains that text contains it in its matched text, so it is left
  out.
\<close>

theorem placeholder_exclusion:
  assumes "match_first marked_re out = None"
  shows "extract_critical out =
           concat (map (\<lambda>mt. if includes_str (fst mt) ''existing-style-placeholder''
                             then [] else group1 mt) (matchAll style_re out)) \<and>
         (\<forall>mt\<in>set (matchAll style_re out).
            includes_str (group1 mt) ''existing-style-placeholder'' \<longrightarrow>
            includes_str (fst mt) ''existing-style-placeholder'')"
proof
  have "extract_critical out =
      concat (map (\<lambda>mt. if \<not> includes_str (fst mt) ''existing-style-placeholder''
                        then group1 mt else []) (matchAll style_re out))"
    unfolding extract_fallback [OF assms] by (rule concat_filter_if)
  also have "\<dots> = concat (map (\<lambda>mt. if includes_str (fst mt) ''existing-style-placeholder''
                        then [] else group1 mt) (matchAll style_re out))"
    by (rule arg_cong [where f = concat]) (rule map_cong, simp_all)
  finally show "extract_critical out =
      concat (map (\<lambda>mt. if includes_str (fst mt) ''existing-style-placeholder''
                        then [] else group1 mt) (matchAll style_re out))" .
next
  show "\<forall>mt\<in>set (matchAll style_re out).
      includes_str (group1 mt) ''existing-style-placeholder'' \<longrightarrow>
      includes_str (fst mt) ''existing-style-placeholder''"
  proof (intro ballI impI)
    fix mt
    assume i: "mt \<in> set (matchAll style_re out)"
      and g: "includes_str (group1 mt) ''existing-style-placeholder''"
    obtain m caps where mt: "mt = (m, caps)" by (cases mt)
    from matchAll_set [OF i] obtain rest where
      "match_at style_re (m @ rest) = Some ((m, caps), rest)"
      unfolding mt by auto
    then obtain attrs body where b: "style_block (m @ rest) m attrs body rest" and c: "caps = [body]"
      unfolding match_style_iff by blast
    from g have "includes_str body ''existing-style-placeholder''"
      unfolding mt c by simp
    with b have "includes_str m ''existing-style-placeholder''"
      by (rule style_block_includes)
    then show "includes_str (fst mt) ''existing-style-placeholder''"
      unfolding mt by simp
  qed
qed

definition demo_unmarked_output :: string where
  "demo_unmarked_output =
     ''<style>a{}</style><style>.existing-style-placeholder{color:red}</style>''"

lemma demo_unmarked: "match_first marked_re demo_unmarked_output = None"
  by code_simp

lemma demo_unmarked_matches:
  "matchAll style_re demo_unmarked_output =
     [(''<style>a{}</style>'', [''a{}'']),
      (''<style>.existing-style-placeholder{color:red}</style>'',
       [''.existing-style-placeholder{color:red}''])]"
  by code_simp

theorem placeholder_exclusion_witness:
  "match_first marked_re demo_unmarked_output = None \<and>
   extract_critical demo_unmarked_output = ''a{}''"
  using placeholder_exclusion [OF demo_unmarked] demo_unmarked
  by (simp add: demo_unmarked_matches)

subsection \<open>Injecting the link\<close>

lemma inject_link_none: "\<not> includes_str y ''</head>'' \<Longrightarrow> inject_link h y = y"
  using split_first_None [of "''</head>''" y]
  by (simp add: inject_link_def replace_string_def)

lemma link_template_plain:
  "CHR ''$'' \<notin> set h \<Longrightarrow> CHR ''$'' \<notin> set (link_tag h @ [newline] @ ''</head>'')"
  by (simp add: link_tag_def newline_def dq_def)

lemma inject_link_first:
  assumes f: "\<forall>i<length pre. \<not> prefix ''</head>'' (drop i (pre @ ''</head>'' @ post))"
    and d: "CHR ''$'' \<notin> set h"
  shows "inject_link h (pre @ ''</head>'' @ post) =
           pre @ link_tag h @ [newline] @ ''</head>'' @ post"
proof -
  from f have "split_first ''</head>'' (pre @ ''</head>'' @ post) = Some (pre, post)"
    by (rule split_first_SomeI)
  moreover have "get_substitution ''</head>'' pre post (link_tag h @ [newline] @ ''</head>'') =
      link_tag h @ [newline] @ ''</head>''"
    by (rule get_substitution_plain) (rule link_template_plain [OF d])
  ultimately show ?thesis
    by (simp add: inject_link_def replace_string_def)
qed

text \<open>
  C9, as amended. Let \<open>x\<close> be the HTML after the style blocks have been replaced and
  the stylesheet links removed. If \<open>x\<close> does not contain \<open></head>\<close>, sanitizing returns
  \<open>x\<close>: nothing is injected. If it does, and the href has no \<open>$\<close>, the new link tag and a
  line break are inserted before the first occurrence; the text before it and the text
  after it, further occurrences included, stay as they are.
\<close>

theorem link_injection:
  "(\<not> includes_str (strip_links (strip_styles html)) ''</head>'' \<longrightarrow>
      sanitize h html = strip_links (strip_styles html)) \<and>
   (\<forall>pre post.
      strip_links (strip_styles html) = pre @ ''</head>'' @ post \<and>
      (\<forall>i<length pre. \<not> prefix ''</head>'' (drop i (pre @ ''</head>'' @ post))) \<and>
      CHR ''$'' \<notin> set h \<longrightarrow>
      sanitize h html = pre @ link_tag h @ [newline] @ ''</head>'' @ post)"
proof (intro conjI allI impI)
  assume "\<not> includes_str (strip_links (strip_styles html)) ''</head>''"
  then show "sanitize h html = strip_links (strip_styles html)"
    unfolding sanitize_def by (rule inject_link_none)
next
  fix pre post
  assume a: "strip_links (strip_styles html) = pre @ ''</head>'' @ post \<and>
      (\<forall>i<length pre. \<not> prefix ''</head>'' (drop i (pre @ ''</head>'' @ post))) \<and>
      CHR ''$'' \<notin> set h"
  show "sanitize h html = pre @ link_tag h @ [newline] @ ''</head>'' @ post"
    unfolding sanitize_def a [THEN conjunct1]
    by (rule inject_link_first [OF a [THEN conjunct2, THEN conjunct1] a [THEN conjunct2, THEN conjunct2]])
qed

text \<open>A page with two closing head tags, and the page without any.\<close>

definition two_heads :: string where
  "two_heads = ''<head><title>t</title></head><body></head></body>''"

lemma two_heads_stripped: "strip_links (strip_styles two_heads) = two_heads"
  by code_simp

lemma two_heads_first:
  "\<forall>i<length ''<head><title>t</title>''.
     \<not> prefix ''</head>'' (drop i (''<head><title>t</title>'' @ ''</head>'' @ ''<body></head></body>''))"
proof -
  have "split_first ''</head>'' two_heads = Some (''<head><title>t</title>'', ''<body></head></body>'')"
    by code_simp
  note d = split_first_SomeD [OF this]
  have e: "two_heads = ''<head><title>t</title>'' @ ''</head>'' @ ''<body></head></body>''"
    by (simp add: two_heads_def)
  from d [THEN conjunct2] show ?thesis unfolding e .
qed

theorem link_injection_witness:
  "\<not> includes_str (strip_links (strip_styles ''<html></html>'')) ''</head>'' \<and>
   sanitize ''/dist/assets/app.css'' ''<html></html>'' = ''<html></html>'' \<and>
   sanitize ''/dist/assets/app.css'' two_heads =
     ''<head><title>t</title>'' @ link_tag ''/dist/assets/app.css'' @ [newline] @
     ''</head>'' @ ''<body></head></body>''"
proof -
  have a: "strip_links (strip_styles ''<html></html>'') = ''<html></html>''"
    by code_simp
  have n: "\<not> includes_str (strip_links (strip_styles ''<html></html>'')) ''</head>''"
    unfolding a by simp
  have d: "CHR ''$'' \<notin> set ''/dist/assets/app.css''" by simp
  have s: "strip_links (strip_styles two_heads) =
      ''<head><title>t</title>'' @ ''</head>'' @ ''<body></head></body>''"
    unfolding two_heads_stripped by (simp add: two_heads_def)
  note t1 = link_injection [of "''<html></html>''" "''/dist/assets/app.css''", THEN conjunct1, rule_format, OF n]
  note t2 = link_injection [of two_heads "''/dist/assets/app.css''", THEN conjunct2, rule_format,
      OF conjI [OF s conjI [OF two_heads_first d]]]
  from n t1 t2 a show ?thesis by simp
qed

text \<open>
  C9 as stated, on the fetched HTML, fails: removing a stylesheet link can put a
  \<open></head>\<close> together that the fetched HTML does not contain, and then a link is injected.
\<close>

definition split_head :: string where
  \<open>split_head = ''</he<link rel="stylesheet">ad>''\<close>

theorem link_injection_counterexample:
  "\<not> includes_str split_head ''</head>'' \<and>
   strip_links (strip_styles split_head) = ''</head>'' \<and>
   sanitize ''/dist/a.css'' split_head = link_tag ''/dist/a.css'' @ [newline] @ ''</head>'' \<and>
   sanitize ''/dist/a.css'' split_head \<noteq> strip_links (strip_styles split_head)"
  by code_simp


subsection \<open>Sanitizing the fetched HTML (lines 94 to 103)\<close>

text \<open>
  The three replacements of lines 95, 100 and 103, in that order. The first two are global
  regular-expression replacements: every leftmost match, scanning on after the match, is replaced.
  \<^const>\<open>replaces\<close> describes exactly that scan, with the matches characterised as texts
  (\<^const>\<open>style_block\<close>, \<^const>\<open>link_tag_text\<close>) rather than through the engine.
\<close>

definition is_style_block :: "string \<Rightarrow> string \<Rightarrow> string \<Rightarrow> bool" where
  "is_style_block s m rest \<longleftrightarrow> (\<exists>attrs body. style_block s m attrs body rest)"

lemma strip_styles_replaces: "replaces is_style_block placeholder html (strip_styles html)"
  unfolding strip_styles_def
proof (rule replace_all_replaces)
  fix s m rest
  show "(\<exists>caps. match_at style_re s = Some ((m, caps), rest)) \<longleftrightarrow> is_style_block s m rest"
    unfolding match_style_iff is_style_block_def by blast
next
  fix s m rest
  assume "is_style_block s m rest"
  then show "m \<noteq> []"
    unfolding is_style_block_def using style_block_nonempty by blast
qed

lemma link_tag_text_nonempty: "link_tag_text s m rest \<Longrightarrow> m \<noteq> []"
  unfolding link_tag_text_def by auto

lemma strip_links_replaces: "replaces link_tag_text [] x (strip_links x)"
  unfolding strip_links_def
proof (rule replace_all_replaces)
  fix s m rest
  show "(\<exists>caps. match_at link_re s = Some ((m, caps), rest)) \<longleftrightarrow> link_tag_text s m rest"
    unfolding match_link_iff by blast
next
  fix s m rest
  assume "link_tag_text s m rest"
  then show "m \<noteq> []" by (rule link_tag_text_nonempty)
qed


text \<open>
  After line 95 no style block is left: the placeholder holds no \<open><style\<close>, and a
  \<open><style\<close> before a replaced block would, with that block's \<open>>\<close> and closing tag, have
  been a match itself.
\<close>

lemma canonicalize_lt: "canonicalize x = CHR ''<'' \<longleftrightarrow> x = CHR ''<''"
  by (auto simp: canonicalize_def split: option.splits if_splits)

lemma ci_prefix_style_hd: "ci_prefix ''<style'' s \<Longrightarrow> \<exists>t. s = CHR ''<'' # t"
proof (cases s)
  case Nil
  assume "ci_prefix ''<style'' s"
  with Nil show ?thesis by (simp add: ci_prefix_def)
next
  case (Cons c t)
  assume "ci_prefix ''<style'' s"
  with Cons have "same_char True (CHR ''<'') c" by (simp add: ci_prefix_def)
  then have "canonicalize c = CHR ''<''" by (simp add: same_char_def canonicalize_def)
  then have "c = CHR ''<''" by (simp only: canonicalize_lt)
  with Cons show ?thesis by simp
qed

lemma is_style_block_prefix: "is_style_block s m rest \<Longrightarrow> ci_prefix ''<style'' s"
proof -
  assume "is_style_block s m rest"
  then obtain tag attrs body close where "s = m @ rest" "m = tag @ attrs @ ''>'' @ body @ close"
    "ci_eq ''<style'' tag"
    unfolding is_style_block_def style_block_def by blast
  then have "s = tag @ (attrs @ ''>'' @ body @ close @ rest) \<and> ci_eq ''<style'' tag" by simp
  then show ?thesis unfolding ci_prefix_split by blast
qed

lemma atoms_prefix_nth:
  "atoms_prefix cs (u @ c # z) \<Longrightarrow> length u < length cs \<Longrightarrow> cls_match True (cs ! length u) c"
proof (induction cs arbitrary: u)
  case Nil
  then show ?case by simp
next
  case (Cons a cs)
  show ?case
  proof (cases u)
    case Nil
    with Cons.prems show ?thesis by simp
  next
    case u: (Cons b u')
    with Cons.prems have "atoms_prefix cs (u' @ c # z)" "length u' < length cs" by simp_all
    from Cons.IH [OF this] u show ?thesis by simp
  qed
qed

lemma style_not_across:
  assumes "u \<noteq> []" and "length u < 6"
  shows "\<not> ci_prefix ''<style'' (u @ CHR ''<'' # z)"
proof
  assume "ci_prefix ''<style'' (u @ CHR ''<'' # z)"
  then have a: "atoms_prefix (map Ch ''<style'') (u @ CHR ''<'' # z)"
    by (simp only: ci_prefix_def)
  have l: "length u < length (map Ch ''<style'')" using assms(2) by simp
  from atoms_prefix_nth [OF a l] have m: "cls_match True (map Ch ''<style'' ! length u) (CHR ''<'')" .
  from assms obtain k where k: "length u = Suc k" "k < 5"
    by (cases "length u") auto
  have "map Ch ''<style'' ! Suc k = map Ch ''style'' ! k" by simp
  moreover have "map Ch ''style'' ! k \<in> set (map Ch ''style'')"
    using k(2) by (intro nth_mem) simp
  moreover have "\<forall>c\<in>set (map Ch ''style''). \<not> cls_match True c (CHR ''<'')"
    by (simp add: same_char_def canonicalize_def)
  ultimately show False using m k(1) by auto
qed

lemma ci_prefix_only_start:
  "length w \<le> length u \<Longrightarrow> ci_prefix w (u @ z) \<longleftrightarrow> ci_prefix w u"
  unfolding ci_prefix_def
  using atoms_prefix_take [of "map Ch w" "u @ z"] atoms_prefix_take [of "map Ch w" u]
  by simp

lemma placeholder_no_style:
  assumes "j < length placeholder"
  shows "\<not> ci_prefix ''<style'' (drop j placeholder @ z)"
proof
  assume p: "ci_prefix ''<style'' (drop j placeholder @ z)"
  show False
  proof (cases j)
    case 0
    with p show False
      by (simp add: placeholder_def ci_prefix_def same_char_def canonicalize_def)
  next
    case (Suc k)
    from ci_prefix_style_hd [OF p] obtain t where t: "drop j placeholder @ z = CHR ''<'' # t" ..
    have ne: "drop j placeholder \<noteq> []" using assms by simp
    then have "hd (drop j placeholder) = CHR ''<''" using t by (cases "drop j placeholder") auto
    moreover have "hd (drop j placeholder) \<in> set (drop j placeholder)" using ne by simp
    moreover have "set (drop j placeholder) \<subseteq> set (tl placeholder)"
      unfolding Suc drop_Suc by (rule set_drop_subset)
    ultimately have "CHR ''<'' \<in> set (tl placeholder)" by auto
    then show False by (simp add: placeholder_def)
  qed
qed

lemma first_closing:
  assumes "j \<le> length t" and "ci_prefix w (drop j t)"
  shows "\<exists>body close rest. t = body @ close @ rest \<and> ci_eq w close \<and>
           (\<forall>i<length body. \<not> ci_prefix w (drop i t))"
proof -
  define j0 where "j0 = (LEAST j. ci_prefix w (drop j t))"
  have p0: "ci_prefix w (drop j0 t)"
    unfolding j0_def using assms(2) by (rule LeastI)
  have "j0 \<le> j" unfolding j0_def using assms(2) by (rule Least_le)
  with assms(1) have l: "j0 \<le> length t" by simp
  have m: "\<forall>i<j0. \<not> ci_prefix w (drop i t)"
    unfolding j0_def using not_less_Least by blast
  from p0 obtain close rest where c: "drop j0 t = close @ rest" "ci_eq w close"
    unfolding ci_prefix_split by blast
  have "t = take j0 t @ close @ rest" using c(1) by (metis append_take_drop_id)
  moreover have "\<forall>i<length (take j0 t). \<not> ci_prefix w (drop i t)" using m l by simp
  ultimately show ?thesis using c(2) by blast
qed

lemma style_block_exists:
  assumes p: "ci_prefix ''<style'' s"
    and d: "drop 6 s = a @ CHR ''>'' # t"
    and j: "j \<le> length t" "ci_prefix ''</style>'' (drop j t)"
  shows "\<exists>m rest. is_style_block s m rest"
proof -
  let ?P = "\<lambda>x. x \<noteq> CHR ''>''"
  let ?w = "drop 6 s"
  have "CHR ''>'' \<in> set ?w" using d by simp
  then have "dropWhile ?P ?w \<noteq> []" by (simp add: dropWhile_eq_Nil_conv)
  then obtain y t' where dw: "dropWhile ?P ?w = y # t'" by (cases "dropWhile ?P ?w") auto
  from dropWhile_gt [OF dw] have w: "?w = takeWhile ?P ?w @ CHR ''>'' # t'"
    and n: "CHR ''>'' \<notin> set (takeWhile ?P ?w)" by simp_all
  let ?a = "takeWhile ?P ?w"
  have "\<exists>k. t = drop k t'"
  proof -
    from d w have e: "?a @ CHR ''>'' # t' = a @ CHR ''>'' # t" by simp
    then obtain us where "(?a = a @ us \<and> us @ CHR ''>'' # t' = CHR ''>'' # t) \<or>
        (?a @ us = a \<and> CHR ''>'' # t' = us @ CHR ''>'' # t)"
      unfolding append_eq_append_conv2 by blast
    then show ?thesis
    proof
      assume h: "?a = a @ us \<and> us @ CHR ''>'' # t' = CHR ''>'' # t"
      show ?thesis
      proof (cases us)
        case Nil
        with h have "t = drop 0 t'" by simp
        then show ?thesis by blast
      next
        case (Cons c us')
        with h have "c = CHR ''>''" by simp
        with Cons h have "CHR ''>'' \<in> set ?a" by (metis in_set_conv_decomp)
        with n show ?thesis by simp
      qed
    next
      assume h: "?a @ us = a \<and> CHR ''>'' # t' = us @ CHR ''>'' # t"
      show ?thesis
      proof (cases us)
        case Nil
        with h have "t = drop 0 t'" by simp
        then show ?thesis by blast
      next
        case (Cons c us')
        with h have "t' = us' @ CHR ''>'' # t" by simp
        then have "t = drop (Suc (length us')) t'" by simp
        then show ?thesis by blast
      qed
    qed
  qed
  then obtain k where k: "t = drop k t'" ..
  have kk: "k + length t \<le> length t' \<or> t = []" using k by auto
  have "\<exists>j'\<le>length t'. ci_prefix ''</style>'' (drop j' t')"
  proof (cases "k \<le> length t'")
    case True
    then have "j + k \<le> length t'" using j(1) k by simp
    moreover have "ci_prefix ''</style>'' (drop (j + k) t')" using j(2) k by (simp add: add.commute)
    ultimately show ?thesis by blast
  next
    case False
    then have "t = []" using k by simp
    with j have "ci_prefix ''</style>'' []" by simp
    then show ?thesis by (simp add: ci_prefix_def)
  qed
  then obtain j' where j': "j' \<le> length t'" "ci_prefix ''</style>'' (drop j' t')" by blast
  from first_closing [OF j'] obtain body close rest where
    b: "t' = body @ close @ rest" "ci_eq ''</style>'' close"
    "\<forall>i<length body. \<not> ci_prefix ''</style>'' (drop i t')"
    by blast
  from p obtain tag u where tg: "s = tag @ u" "ci_eq ''<style'' tag"
    unfolding ci_prefix_split by blast
  then have "length tag = 6" by (simp add: ci_eq_def)
  with tg(1) have u: "?w = u" by simp
  have s: "s = (tag @ ?a @ ''>'' @ body @ close) @ rest"
    using tg(1) u w b(1) by simp
  have "style_block s (tag @ ?a @ ''>'' @ body @ close) ?a body rest"
    unfolding style_block_def
    apply (rule exI [of _ tag])
    apply (rule exI [of _ close])
    using s tg(2) n b(2) b(3) [unfolded b(1)] by simp
  then show ?thesis unfolding is_style_block_def by blast
qed

lemma replaces_style_clean:
  assumes "replaces is_style_block placeholder x y"
  shows "\<forall>i\<le>length y. \<forall>m rest. \<not> is_style_block (drop i y) m rest"
  using assms
proof (induction rule: replaces.induct)
  case (none x)
  then show ?case .
next
  case (step m post pre y)
  note blk = step.hyps(1) and first = step.hyps(2) and IH = step.IH
  show ?case
  proof (intro allI impI notI)
    fix i m' rest'
    assume i: "i \<le> length (pre @ placeholder @ y)"
      and b: "is_style_block (drop i (pre @ placeholder @ y)) m' rest'"
    from is_style_block_prefix [OF b]
    have p: "ci_prefix ''<style'' (drop i (pre @ placeholder @ y))" .
    consider (a) "i < length pre"
      | (b) "length pre \<le> i" "i < length pre + length placeholder"
      | (c) "length pre + length placeholder \<le> i" by linarith
    then show False
    proof cases
      case a
      let ?u = "drop i pre"
      have e: "drop i (pre @ placeholder @ y) = ?u @ placeholder @ y" using a by simp
      have une: "?u \<noteq> []" using a by simp
      show False
      proof (cases "length ?u < 6")
        case True
        have "placeholder @ y = CHR ''<'' # (tl placeholder @ y)" by (simp add: placeholder_def)
        with p e have "ci_prefix ''<style'' (?u @ CHR ''<'' # (tl placeholder @ y))" by simp
        with style_not_across [OF une True] show False by blast
      next
        case False
        then have l: "length ''<style'' \<le> length ?u" by simp
        from p e have "ci_prefix ''<style'' (?u @ placeholder @ y)" by simp
        then have "ci_prefix ''<style'' ?u" by (simp only: ci_prefix_only_start [OF l])
        then have p2: "ci_prefix ''<style'' (?u @ m @ post)"
          by (simp only: ci_prefix_only_start [OF l])
        from blk obtain tag attrs body close where
          m: "m = tag @ attrs @ ''>'' @ body @ close" and cl: "ci_eq ''</style>'' close"
          unfolding is_style_block_def style_block_def by blast
        have d: "drop 6 (?u @ m @ post) =
            (drop 6 ?u @ tag @ attrs) @ CHR ''>'' # (body @ close @ post)"
          using False m by simp
        have j: "length body \<le> length (body @ close @ post)" by simp
        have "ci_prefix ''</style>'' (close @ post)"
          unfolding ci_prefix_split using cl by blast
        then have c: "ci_prefix ''</style>'' (drop (length body) (body @ close @ post))" by simp
        from style_block_exists [OF p2 d j c] obtain m2 r2
          where "is_style_block (?u @ m @ post) m2 r2" by blast
        moreover have "drop i (pre @ m @ post) = ?u @ m @ post" using a by simp
        ultimately have "is_style_block (drop i (pre @ m @ post)) m2 r2" by simp
        with first [rule_format, OF a, of m2 r2] show False by simp
      qed
    next
      case b
      have "drop i (pre @ placeholder @ y) = drop (i - length pre) placeholder @ y"
        using b by simp
      moreover have "i - length pre < length placeholder" using b by simp
      ultimately show False using p placeholder_no_style [of "i - length pre" y] by simp
    next
      case c
      have e: "drop i (pre @ placeholder @ y) = drop (i - length pre - length placeholder) y"
        using c by simp
      have "i - length pre - length placeholder \<le> length y" using i c by simp
      from IH [rule_format, OF this, of m' rest'] b e show False by simp
    qed
  qed
qed

lemma strip_styles_clean:
  "\<forall>i\<le>length (strip_styles html). \<forall>m rest. \<not> is_style_block (drop i (strip_styles html)) m rest"
  using strip_styles_replaces by (rule replaces_style_clean)

lemma demo_sanitized:
  "sanitize ''/dist/assets/app.css'' demo_page_html =
     ''<html><head>'' @ placeholder @ link_tag ''/dist/assets/app.css'' @ [newline] @
     ''</head><body><h1>Hi</h1></body></html>''"
  by code_simp


text \<open>
  C6, as amended. Sanitizing is the composition of the three replacements in order:
  \<^item> every style block found by the left-to-right scan is replaced by the placeholder comment,
    and no style block is left in the result; a style block is \<open><style\<close> in any case,
    attributes up to the first \<open>>\<close>, and the shortest body, across newlines, up to a closing
    \<open></style>\<close> in any case;
  \<^item> then every stylesheet link found by the left-to-right scan is removed; a stylesheet link
    is \<open><link\<close> in any case and the text up to the first \<open>>\<close>, holding \<open>rel=\<close> and
    a quoted \<open>stylesheet\<close> in any case;
  \<^item> then, if the result holds no \<open></head>\<close>, nothing is inserted; if it does and the href
    holds no \<open>$\<close>, exactly the new link tag and a newline are inserted before the first
    \<open></head>\<close>, and nothing else changes.

  For the document of the concrete run, which holds \<open><style>a{color:red}</style>\<close>, a
  stylesheet link to \<open>x.css\<close> and a \<open></head>\<close>, both are gone and the one new link stands
  right before \<open></head>\<close>.
\<close>

theorem sanitize_transforms:
  "sanitize h html = inject_link h (strip_links (strip_styles html)) \<and>
   replaces is_style_block placeholder html (strip_styles html) \<and>
   (\<forall>i\<le>length (strip_styles html). \<forall>m rest.
      \<not> is_style_block (drop i (strip_styles html)) m rest) \<and>
   replaces link_tag_text [] (strip_styles html) (strip_links (strip_styles html)) \<and>
   (\<not> includes_str (strip_links (strip_styles html)) ''</head>'' \<longrightarrow>
      sanitize h html = strip_links (strip_styles html)) \<and>
   (CHR ''$'' \<notin> set h \<longrightarrow>
      (\<forall>pre post.
         strip_links (strip_styles html) = pre @ ''</head>'' @ post \<and>
         (\<forall>i<length pre. \<not> prefix ''</head>'' (drop i (pre @ ''</head>'' @ post))) \<longrightarrow>
         sanitize h html = pre @ link_tag h @ [newline] @ ''</head>'' @ post)) \<and>
   sanitize ''/dist/assets/app.css'' demo_page_html =
     ''<html><head>'' @ placeholder @ link_tag ''/dist/assets/app.css'' @ [newline] @
     ''</head><body><h1>Hi</h1></body></html>''"
proof (intro conjI allI impI)
  show "sanitize h html = inject_link h (strip_links (strip_styles html))"
    by (simp add: sanitize_def)
  show "replaces is_style_block placeholder html (strip_styles html)"
    by (rule strip_styles_replaces)
  show "replaces link_tag_text [] (strip_styles html) (strip_links (strip_styles html))"
    by (rule strip_links_replaces)
  show "sanitize ''/dist/assets/app.css'' demo_page_html =
     ''<html><head>'' @ placeholder @ link_tag ''/dist/assets/app.css'' @ [newline] @
     ''</head><body><h1>Hi</h1></body></html>''"
    by (rule demo_sanitized)
next
  fix i m rest
  assume "i \<le> length (strip_styles html)"
  with strip_styles_clean show "\<not> is_style_block (drop i (strip_styles html)) m rest"
    by blast
next
  assume "\<not> includes_str (strip_links (strip_styles html)) ''</head>''"
  then show "sanitize h html = strip_links (strip_styles html)"
    unfolding sanitize_def by (rule inject_link_none)
next
  fix pre post
  assume d: "CHR ''$'' \<notin> set h"
    and a: "strip_links (strip_styles html) = pre @ ''</head>'' @ post \<and>
         (\<forall>i<length pre. \<not> prefix ''</head>'' (drop i (pre @ ''</head>'' @ post)))"
  show "sanitize h html = pre @ link_tag h @ [newline] @ ''</head>'' @ post"
    unfolding sanitize_def a [THEN conjunct1]
    by (rule inject_link_first [OF a [THEN conjunct2] d])
qed


definition headless_html :: string where
  \<open>headless_html = ''<style>a{color:red}</style><link rel="stylesheet" href="x.css">''\<close>


theorem sanitize_transforms_witness:
  "CHR ''$'' \<notin> set ''/dist/assets/app.css'' \<and>
   strip_links (strip_styles two_heads) =
     ''<head><title>t</title>'' @ ''</head>'' @ ''<body></head></body>'' \<and>
   sanitize ''/dist/assets/app.css'' two_heads =
     ''<head><title>t</title>'' @ link_tag ''/dist/assets/app.css'' @ [newline] @
     ''</head>'' @ ''<body></head></body>'' \<and>
   \<not> includes_str (strip_links (strip_styles headless_html)) ''</head>'' \<and>
   sanitize ''/dist/assets/app.css'' headless_html = strip_links (strip_styles headless_html)"
proof -
  have d: "CHR ''$'' \<notin> set ''/dist/assets/app.css''" by simp
  have s: "strip_links (strip_styles two_heads) =
      ''<head><title>t</title>'' @ ''</head>'' @ ''<body></head></body>''"
    unfolding two_heads_stripped by (simp add: two_heads_def)
  have n: "\<not> includes_str (strip_links (strip_styles headless_html)) ''</head>''"
    by code_simp
  note t = sanitize_transforms [of "''/dist/assets/app.css''" two_heads]
  note t1 = t [THEN conjunct2, THEN conjunct2, THEN conjunct2, THEN conjunct2, THEN conjunct2,
      THEN conjunct1,
      rule_format, OF d conjI [OF s two_heads_first]]
  note u = sanitize_transforms [of "''/dist/assets/app.css''" headless_html]
  note u1 = u [THEN conjunct2, THEN conjunct2, THEN conjunct2, THEN conjunct2, THEN conjunct1,
      rule_format, OF n]
  from d s t1 n u1 show ?thesis by simp
qed


text \<open>
  C6 as stated, for every HTML holding the style block and the link of its example, fails: in a
  document without \<open></head>\<close> line 103 replaces nothing, so both are removed and no link is
  inserted.
\<close>

theorem sanitize_without_head_counterexample:
  \<open>includes_str headless_html ''<style>a{color:red}</style>'' \<and>
   includes_str headless_html ''<link rel="stylesheet" href="x.css">'' \<and>
   sanitize ''/dist/assets/app.css'' headless_html = placeholder \<and>
   \<not> includes_str (sanitize ''/dist/assets/app.css'' headless_html) ''<link''\<close>
  by code_simp

end
